theory Spec2Isabelle
  imports Complex_Main "HOL-Library.Word"
begin

section \<open>The weighted round-robin selector (internal/rr/roundrobin.go)\<close>

text \<open>
  Go's \<open>int\<close> fields \<open>rounds\<close>, \<open>currRound\<close> and the weights are modelled as
  unbounded \<open>int\<close>: inside the balancer every weight lies in \<open>[0, 100]\<close>, and the round
  counter is reset to 1 as soon as an increment takes it past \<open>rounds\<close>, so no 64-bit
  overflow is involved in the properties below. \<open>currIndex\<close> starts at 0 and is only
  ever incremented or reset to 0, hence a \<open>nat\<close>.

  Run-time panics of the Go code are values of type \<open>panic\<close>.
\<close>

datatype panic = IndexOutOfRange | EmptyMax | NegativeShift | NonPositiveTicker

record WeightedRoundRobin =
  weights :: "int list"
  rounds :: int
  currIndex :: nat
  currRound :: int

definition NewWeightedRoundRobin :: "int list \<Rightarrow> WeightedRoundRobin" where
  "NewWeightedRoundRobin ws =
     \<lparr>weights = ws, rounds = 0, currIndex = 0, currRound = 0\<rparr>"

definition advanceIndex :: "WeightedRoundRobin \<Rightarrow> WeightedRoundRobin" where
  "advanceIndex r =
     (let r1 = r\<lparr>currIndex := currIndex r + 1\<rparr> in
      if currIndex r1 \<ge> length (weights r1) then
        (let r2 = r1\<lparr>currIndex := 0, currRound := currRound r1 + 1\<rparr> in
         if currRound r2 > rounds r2 then r2\<lparr>currRound := 1\<rparr> else r2)
      else r1)"

text \<open>
  The \<open>for\<close> loop at the head of \<open>Dispatch\<close>. It has no bound in the source, so it
  is a partial function: \<open>None\<close> means that the loop never exits. Reading
  \<open>r.weights[r.currIndex]\<close> out of range panics.
\<close>

partial_function (option) Dispatch_loop ::
  "WeightedRoundRobin \<Rightarrow> (panic + WeightedRoundRobin) option" where
  "Dispatch_loop r =
     (if currIndex r \<ge> length (weights r) then Some (Inl IndexOutOfRange)
      else if weights r ! currIndex r \<ge> currRound r then Some (Inr r)
      else Dispatch_loop (advanceIndex r))"

declare Dispatch_loop.simps [code]

definition Dispatch :: "WeightedRoundRobin \<Rightarrow> (panic + nat \<times> WeightedRoundRobin) option" where
  "Dispatch r =
     (case Dispatch_loop r of
        None \<Rightarrow> None
      | Some (Inl e) \<Rightarrow> Some (Inl e)
      | Some (Inr r') \<Rightarrow> Some (Inr (currIndex r', advanceIndex r')))"

definition GetWeights :: "WeightedRoundRobin \<Rightarrow> int list" where
  "GetWeights r = weights r"

text \<open>\<open>slices.Max\<close> panics on an empty slice and otherwise folds \<open>max\<close> from the left.\<close>

definition slices_Max :: "int list \<Rightarrow> panic + int" where
  "slices_Max xs = (case xs of [] \<Rightarrow> Inl EmptyMax | x # ys \<Rightarrow> Inr (fold max ys x))"

definition UpdateWeights :: "WeightedRoundRobin \<Rightarrow> int list \<Rightarrow> panic + WeightedRoundRobin" where
  "UpdateWeights r ws =
     (case slices_Max ws of
        Inl e \<Rightarrow> Inl e
      | Inr m \<Rightarrow> Inr (r\<lparr>weights := ws, rounds := m\<rparr>))"

text \<open>
  A caller that invokes \<open>Dispatch\<close> \<open>n\<close> times in a row, collecting the indices. A call
  that panics or never returns ends the run with that outcome.
\<close>

fun Dispatch_n :: "nat \<Rightarrow> WeightedRoundRobin \<Rightarrow> (panic + nat list \<times> WeightedRoundRobin) option" where
  "Dispatch_n 0 r = Some (Inr ([], r))"
| "Dispatch_n (Suc n) r =
     (case Dispatch r of
        None \<Rightarrow> None
      | Some (Inl e) \<Rightarrow> Some (Inl e)
      | Some (Inr (i, r')) \<Rightarrow>
          (case Dispatch_n n r' of
             None \<Rightarrow> None
           | Some (Inl e) \<Rightarrow> Some (Inl e)
           | Some (Inr (is, r'')) \<Rightarrow> Some (Inr (i # is, r''))))"


section \<open>The load balancer (lb/lb.go)\<close>

text \<open>
  \<open>float64\<close> values (capacities, configuration factors) are modelled as reals.
  Infinities and NaN are outside the model, and so is a division by a zero \<open>totalCap\<close>
  or a zero update interval (no such division happens on a state whose capacities are at
  least 0.1 and on a ticker that could be created).

  In \<open>updateLoads\<close> the arithmetic is read exactly: there a rounding moves a capacity by
  a relative \<open>2^-53\<close> at most and decides nothing. In \<open>updateWeights\<close> the results are
  truncated to integers, so a rounding can change a weight, and every \<open>float64\<close>
  operation keeps its rounding there. The rounding of \<open>float64\<close> (to the nearest
  value, ties to even) is not part of the library, so it is the parameter \<open>fl\<close> of the
  model: \<open>l.totalCap += c\<close> is \<open>fl (t + c)\<close> and \<open>c / l.totalCap * 100\<close> is
  \<open>fl (fl (c / tc) * 100)\<close>. With the identity for \<open>fl\<close> the arithmetic is exact.

  A \<open>time.Duration\<close> is a signed 64-bit count of nanoseconds; the \<open>atomic.Int32\<close>
  counters are 32-bit words read as signed values.
\<close>

type_synonym Duration = "64 word"
type_synonym Int32 = "32 word"

definition Millisecond :: Duration where
  "Millisecond = 1000000"

definition Second :: Duration where
  "Second = 1000000000"

definition Seconds :: "Duration \<Rightarrow> real" where
  "Seconds d = real_of_int (sint d) / 1000000000"

text \<open>The conversion \<open>int(x)\<close> of a \<open>float64\<close> truncates towards zero.\<close>

definition go_int :: "real \<Rightarrow> int" where
  "go_int x = (if 0 \<le> x then \<lfloor>x\<rfloor> else \<lceil>x\<rceil>)"

text \<open>
  Errors. \<open>errors.Is err ErrExceedCap\<close> also recognises the sentinel inside a chain of
  wrapping errors; \<open>None\<close> is Go's \<open>nil\<close> error.
\<close>

datatype error = ErrExceedCap | Wrapped string error | Canceled | DeadlineExceeded | OtherError string

fun unwraps_to_ErrExceedCap :: "error \<Rightarrow> bool" where
  "unwraps_to_ErrExceedCap ErrExceedCap = True"
| "unwraps_to_ErrExceedCap (Wrapped msg e) = unwraps_to_ErrExceedCap e"
| "unwraps_to_ErrExceedCap e = False"

definition errors_Is_ErrExceedCap :: "error option \<Rightarrow> bool" where
  "errors_Is_ErrExceedCap err = (case err of None \<Rightarrow> False | Some e \<Rightarrow> unwraps_to_ErrExceedCap e)"

text \<open>
  A handler is an opaque effectful function. Within one \<open>tryDispatch\<close> only the
  sequence of its results matters: \<open>h param k\<close> is what the \<open>k\<close>-th invocation
  (counted from 0) returns. Likewise a context is observed only at the head of each loop
  iteration: \<open>Done ctx k\<close> says whether \<open>ctx.Done()\<close> is ready at iteration \<open>k\<close>.
\<close>

type_synonym ('t, 'u) HandlerFunc = "'t \<Rightarrow> nat \<Rightarrow> 'u \<times> error option"

record ('t, 'u) Handler =
  EstCap :: real
  HDispatch :: "('t, 'u) HandlerFunc"

record Context =
  Done :: "nat \<Rightarrow> bool"
  Err :: error

record Config =
  BackoffMaxExponent :: int
  BackoffUnit :: Duration
  UpdateInterval :: Duration
  SmoothingFactor :: real
  ExplorationRate :: real
  AIMDIncrease :: real
  AIMDDecreaseFactor :: real

record ('t, 'u) LoadBalancer =
  config :: Config
  wrr :: WeightedRoundRobin
  dispatch :: "('t, 'u) HandlerFunc list"
  calls :: "Int32 list"
  rejections :: "Int32 list"
  caps :: "real list"
  totalCap :: real

definition defaultConfig :: Config where
  "defaultConfig =
     \<lparr>BackoffMaxExponent = 10, BackoffUnit = 100 * Millisecond, UpdateInterval = Second,
      SmoothingFactor = 0.5, ExplorationRate = 0.1, AIMDIncrease = 0.1,
      AIMDDecreaseFactor = 0.9\<rparr>"

subsection \<open>updateWeights\<close>

text \<open>The first loop of \<open>updateWeights\<close>: \<open>l.totalCap = 0\<close>, then \<open>l.totalCap += c\<close>.\<close>

definition totalCap_loop :: "(real \<Rightarrow> real) \<Rightarrow> real list \<Rightarrow> real" where
  "totalCap_loop fl cs = fold (\<lambda>c t. fl (t + c)) cs 0"

text \<open>
  The second loop of \<open>updateWeights\<close>: \<open>newWeights[i] = int(c / totalCap * 100)\<close> for
  the capacities from position \<open>i\<close> on. Writing past the end of \<open>newWeights\<close> panics.
\<close>

fun newWeights_loop ::
  "(real \<Rightarrow> real) \<Rightarrow> real \<Rightarrow> real list \<Rightarrow> nat \<Rightarrow> int list \<Rightarrow> panic + int list" where
  "newWeights_loop fl tc [] i nw = Inr nw"
| "newWeights_loop fl tc (c # cs) i nw =
     (if i \<ge> length nw then Inl IndexOutOfRange
      else newWeights_loop fl tc cs (Suc i) (nw[i := go_int (fl (fl (c / tc) * 100))]))"

definition updateWeights ::
  "(real \<Rightarrow> real) \<Rightarrow> ('t, 'u) LoadBalancer \<Rightarrow> panic + ('t, 'u) LoadBalancer" where
  "updateWeights fl l =
     (let l1 = l\<lparr>totalCap := totalCap_loop fl (caps l)\<rparr> in
      case newWeights_loop fl (totalCap l1) (caps l1) 0 (replicate (length (dispatch l1)) 0) of
        Inl e \<Rightarrow> Inl e
      | Inr newWeights \<Rightarrow>
          (case UpdateWeights (wrr l1) newWeights of
             Inl e \<Rightarrow> Inl e
           | Inr w \<Rightarrow> Inr (l1\<lparr>wrr := w\<rparr>)))"

subsection \<open>NewLoadBalancer\<close>

definition NewLoadBalancer ::
  "(real \<Rightarrow> real) \<Rightarrow> ('t, 'u) Handler list \<Rightarrow> panic + ('t, 'u) LoadBalancer" where
  "NewLoadBalancer fl handlers =
     (let n = length handlers in
      updateWeights fl
        \<lparr>config = defaultConfig,
         wrr = NewWeightedRoundRobin (replicate n 0),
         dispatch = map HDispatch handlers,
         calls = replicate n 0,
         rejections = replicate n 0,
         caps = map (\<lambda>ds. max (EstCap ds) 1) handlers,
         totalCap = 0\<rparr>)"

subsection \<open>updateLoads and the estimator tick\<close>

text \<open>The body of the loop of \<open>updateLoads\<close> for one index \<open>i\<close>.\<close>

definition updateLoads_body :: "nat \<Rightarrow> ('t, 'u) LoadBalancer \<Rightarrow> panic + ('t, 'u) LoadBalancer" where
  "updateLoads_body i l =
     (if i \<ge> length (rejections l) \<or> i \<ge> length (caps l) then Inl IndexOutOfRange
      else
        let c = calls l ! i;
            r = rejections l ! i;
            cap1 = (if 0 <s c then caps l ! i + AIMDIncrease (config l) else caps l ! i);
            cap2 = (if 0 <s r then cap1 * AIMDDecreaseFactor (config l) else cap1);
            cap3 = (if 0 <s c \<or> 0 <s r
                    then (let estCap = real_of_int (sint c) / Seconds (UpdateInterval (config l))
                          in SmoothingFactor (config l) * estCap
                             + (1 - SmoothingFactor (config l)) * cap2)
                    else cap2);
            cap4 = (if c = 0 \<and> r = 0 then cap3 * 0.99 else cap3)
        in Inr (l\<lparr>caps := (caps l)[i := max cap4 0.1],
                 calls := (calls l)[i := 0],
                 rejections := (rejections l)[i := 0]\<rparr>))"

fun updateLoads_loop :: "nat list \<Rightarrow> ('t, 'u) LoadBalancer \<Rightarrow> panic + ('t, 'u) LoadBalancer" where
  "updateLoads_loop [] l = Inr l"
| "updateLoads_loop (i # is) l =
     (case updateLoads_body i l of
        Inl e \<Rightarrow> Inl e
      | Inr l' \<Rightarrow> updateLoads_loop is l')"

definition updateLoads :: "('t, 'u) LoadBalancer \<Rightarrow> panic + ('t, 'u) LoadBalancer" where
  "updateLoads l = updateLoads_loop [0 ..< length (calls l)] l"

text \<open>
  One firing of the ticker in \<open>spin\<close>. \<open>spin\<close> creates the ticker with
  \<open>time.NewTicker(l.UpdateInterval)\<close> before its loop, which panics unless the interval is
  positive, so a tick only ever runs with a positive update interval.
\<close>

definition tick ::
  "(real \<Rightarrow> real) \<Rightarrow> ('t, 'u) LoadBalancer \<Rightarrow> panic + ('t, 'u) LoadBalancer" where
  "tick fl l =
     (if sint (UpdateInterval (config l)) \<le> 0 then Inl NonPositiveTicker
      else case updateLoads l of
             Inl e \<Rightarrow> Inl e
           | Inr l1 \<Rightarrow> updateWeights fl l1)"

subsection \<open>backoff and tryDispatch\<close>

text \<open>
  \<open>backoff\<close> returns the duration it hands to \<open>time.Sleep\<close>. The expression
  \<open>l.BackoffUnit * 1 << exp\<close> parses as \<open>(l.BackoffUnit * 1) << exp\<close>; a negative
  shift count panics, and the shift wraps in 64 bits.
\<close>

definition backoff :: "Config \<Rightarrow> int \<Rightarrow> panic + Duration" where
  "backoff cfg i =
     (let exp = min (BackoffMaxExponent cfg) i in
      if exp < 0 then Inl NegativeShift
      else Inr (push_bit (nat exp) (BackoffUnit cfg * 1)))"

text \<open>
  The retry loop of \<open>tryDispatch\<close> together with the code after it. \<open>attempts\<close> is
  also the number of the current iteration, since every iteration that does not leave the
  loop increments it. \<open>slept\<close> collects the durations slept so far. \<open>None\<close> means that
  the loop never ends.
\<close>

partial_function (option) tryDispatch_loop ::
  "Context \<Rightarrow> 't \<Rightarrow> nat \<Rightarrow> nat \<Rightarrow> 'u \<Rightarrow> Duration list \<Rightarrow> ('t, 'u) LoadBalancer
     \<Rightarrow> (panic + ('u \<times> error option \<times> Duration list) \<times> ('t, 'u) LoadBalancer) option" where
  "tryDispatch_loop ctx param index attempts res slept l =
     (if Done ctx attempts then Some (Inr ((res, Some (Err ctx), slept), l))
      else if index \<ge> length (dispatch l) then Some (Inl IndexOutOfRange)
      else
        (case (dispatch l ! index) param attempts of
           (res', err) \<Rightarrow>
             if \<not> errors_Is_ErrExceedCap err then
               (if index \<ge> length (calls l) then Some (Inl IndexOutOfRange)
                else Some (Inr ((res', err, slept),
                                l\<lparr>calls := (calls l)[index := calls l ! index + 1]\<rparr>)))
             else if index \<ge> length (rejections l) then Some (Inl IndexOutOfRange)
             else
               (case backoff (config l) (int attempts) of
                  Inl e \<Rightarrow> Some (Inl e)
                | Inr d \<Rightarrow>
                    tryDispatch_loop ctx param index (attempts + 1) res' (slept @ [d])
                      (l\<lparr>rejections := (rejections l)[index := rejections l ! index + 1]\<rparr>))))"

declare tryDispatch_loop.simps [code]

text \<open>\<open>zero\<close> is the zero value of the result type, the initial value of \<open>res\<close>.\<close>

definition tryDispatch ::
  "'u \<Rightarrow> Context \<Rightarrow> 't \<Rightarrow> nat \<Rightarrow> ('t, 'u) LoadBalancer
     \<Rightarrow> (panic + ('u \<times> error option \<times> Duration list) \<times> ('t, 'u) LoadBalancer) option" where
  "tryDispatch zero ctx param index l = tryDispatch_loop ctx param index 0 zero [] l"


section \<open>Auxiliary notions for the proofs\<close>

text \<open>
  A selector state in which the skip loop of \<open>Dispatch\<close> can never exit: the round is
  at least 1 and no weight reaches 1.
\<close>

definition stuck :: "WeightedRoundRobin \<Rightarrow> bool" where
  "stuck r \<longleftrightarrow> currIndex r < length (weights r) \<and> 1 \<le> currRound r \<and>
      (\<forall>w \<in> set (weights r). w < 1)"

text \<open>
  The termination argument for the skip loop: a state is \<open>good\<close> when some slot at or
  after the cursor passes the test of the current round; otherwise the cursor first has
  to wrap.
\<close>

definition good :: "WeightedRoundRobin \<Rightarrow> bool" where
  "good r \<longleftrightarrow> (\<exists>j. currIndex r \<le> j \<and> j < length (weights r) \<and> currRound r \<le> weights r ! j)"

definition skip_measure :: "WeightedRoundRobin \<Rightarrow> nat" where
  "skip_measure r = (if good r then 0 else length (weights r)) + (length (weights r) - currIndex r)"

text \<open>
  Fixtures for concrete runs of \<open>tryDispatch\<close>: a balancer over a single handler as
  \<open>NewLoadBalancer\<close> builds it, a handler that always signals exceeded capacity, a
  handler that always fails with another error, a context that is never done and one that
  is done from the \<open>n\<close>-th loop iteration on.
\<close>

definition single_handler_balancer :: "(unit, nat) HandlerFunc \<Rightarrow> (unit, nat) LoadBalancer" where
  "single_handler_balancer h =
     \<lparr>config = defaultConfig,
      wrr = \<lparr>weights = [100], rounds = 100, currIndex = 0, currRound = 0\<rparr>,
      dispatch = [h], calls = [0], rejections = [0], caps = [1], totalCap = 1\<rparr>"

definition always_exceeded :: "(unit, nat) HandlerFunc" where
  "always_exceeded param k = (0, Some ErrExceedCap)"

definition always_failing :: "(unit, nat) HandlerFunc" where
  "always_failing param k = (0, Some (OtherError ''boom''))"


definition never_done :: Context where
  "never_done = \<lparr>Done = (\<lambda>k. False), Err = Canceled\<rparr>"


text \<open>
  What the weight computation needs of the rounding \<open>fl\<close>: on the arguments between
  \<open>lo\<close> and \<open>hi\<close> the result is off by the relative error \<open>u\<close> at most. The rounding of
  \<open>float64\<close> has this property with \<open>u = 2^-53\<close>, \<open>lo = 2^-1022\<close> (the smallest
  normal number) and \<open>hi = 2^1023\<close> (no overflow up to there).
\<close>

definition rounds_within :: "(real \<Rightarrow> real) \<Rightarrow> real \<Rightarrow> real \<Rightarrow> real \<Rightarrow> bool" where
  "rounds_within fl u lo hi \<longleftrightarrow> (\<forall>x. lo \<le> x \<and> x \<le> hi \<longrightarrow> \<bar>fl x - x\<bar> \<le> u * x)"

text \<open>
  The rounding of \<open>float64\<close> on the inexact operations of the three runs below: the
  quotients \<open>29 / 100\<close>, \<open>71 / 100\<close> and \<open>1 / 7\<close> and their roundings times 100, and, for
  the capacities 1.08 and 1.32 as \<open>float64\<close> holds them (\<open>cap_1_08\<close> and \<open>cap_1_32\<close>),
  their sum, their quotients by the rounded sum and the roundings of these times 100.
  Every other argument that occurs in these runs is a \<open>float64\<close> value and is returned
  unchanged.
\<close>

definition cap_1_08 :: real where
  "cap_1_08 = 607985949695017 / 2 ^ 49"

definition cap_1_32 :: real where
  "cap_1_32 = 5944751508129055 / 2 ^ 52"

definition float64_table :: "(real \<times> real) list" where
  "float64_table =
     [(29 / 100, 5224175567749775 / 2 ^ 54),
      (5224175567749775 / 2 ^ 54 * 100, 8162774324609023 / 2 ^ 48),
      (71 / 100, 799388933858263 / 2 ^ 50),
      (799388933858263 / 2 ^ 50 * 100, 71),
      (1 / 7, 2573485501354569 / 2 ^ 54),
      (2573485501354569 / 2 ^ 54 * 100, 2010535547933257 / 2 ^ 47),
      (10808639105689191 / 2 ^ 52, 1351079888211149 / 2 ^ 49),
      (607985949695017 / 1351079888211149, 2026619832316723 / 2 ^ 52),
      (2026619832316723 / 2 ^ 52 * 100, 6333186975989759 / 2 ^ 47),
      (5944751508129055 / 10808639105689192, 4953959590107545 / 2 ^ 53),
      (4953959590107545 / 2 ^ 53 * 100, 7740561859543039 / 2 ^ 47)]"

definition float64_sample :: "real \<Rightarrow> real" where
  "float64_sample x = (case map_of float64_table x of Some y \<Rightarrow> y | None \<Rightarrow> x)"

text \<open>
  A balancer over two handlers of capacities 29 and 71, one over two handlers of
  capacities 1.08 and 1.32, and one over seven handlers of capacity 1 each, before their
  weights are computed.
\<close>

definition decimal_hint_balancer :: "(unit, nat) LoadBalancer" where
  "decimal_hint_balancer =
     \<lparr>config = defaultConfig,
      wrr = NewWeightedRoundRobin [0, 0],
      dispatch = [always_failing, always_exceeded],
      calls = [0, 0], rejections = [0, 0],
      caps = [cap_1_08, cap_1_32], totalCap = 0\<rparr>"

definition two_hint_balancer :: "(unit, nat) LoadBalancer" where
  "two_hint_balancer =
     \<lparr>config = defaultConfig,
      wrr = NewWeightedRoundRobin [0, 0],
      dispatch = [always_failing, always_exceeded],
      calls = [0, 0], rejections = [0, 0],
      caps = [29, 71], totalCap = 0\<rparr>"

definition seven_handler_balancer :: "(unit, nat) LoadBalancer" where
  "seven_handler_balancer =
     \<lparr>config = defaultConfig,
      wrr = NewWeightedRoundRobin [0, 0, 0, 0, 0, 0, 0],
      dispatch = [always_failing, always_failing, always_failing, always_failing,
                  always_failing, always_failing, always_failing],
      calls = [0, 0, 0, 0, 0, 0, 0], rejections = [0, 0, 0, 0, 0, 0, 0],
      caps = [1, 1, 1, 1, 1, 1, 1], totalCap = 0\<rparr>"

text \<open>
  The capacity update of one tick for one handler as the specification words it, from the
  values \<open>c\<close> and \<open>r\<close> of the two counters and the old capacity: additive increase,
  multiplicative decrease, exponential smoothing of the observed rate, idle decay, and the
  lower clamp, in this order.
\<close>

definition spec_capacity_update :: "Config \<Rightarrow> int \<Rightarrow> int \<Rightarrow> real \<Rightarrow> real" where
  "spec_capacity_update cfg c r cap =
     (let increased = (if c > 0 then cap + AIMDIncrease cfg else cap);
          decreased = (if r > 0 then increased * AIMDDecreaseFactor cfg else increased);
          smoothed = (if c > 0 \<or> r > 0
                      then SmoothingFactor cfg * (real_of_int c / Seconds (UpdateInterval cfg))
                           + (1 - SmoothingFactor cfg) * decreased
                      else decreased);
          decayed = (if c = 0 \<and> r = 0 then smoothed * 0.99 else smoothed)
      in max decayed 0.1)"

text \<open>
  The shape of a balancer that \<open>NewLoadBalancer\<close> returns and that every tick keeps: the
  counters and capacities have one entry per handler, and there is at least one handler.
\<close>

definition well_formed :: "('t, 'u) LoadBalancer \<Rightarrow> bool" where
  "well_formed l \<longleftrightarrow>
     length (calls l) = length (dispatch l) \<and> length (rejections l) = length (dispatch l)
     \<and> length (caps l) = length (dispatch l) \<and> dispatch l \<noteq> []"

text \<open>A balancer over two handlers in the middle of a tick interval.\<close>

definition two_handler_balancer :: "(unit, nat) LoadBalancer" where
  "two_handler_balancer =
     \<lparr>config = defaultConfig,
      wrr = \<lparr>weights = [25, 75], rounds = 75, currIndex = 0, currRound = 0\<rparr>,
      dispatch = [always_failing, always_exceeded],
      calls = [4, 0], rejections = [0, 0], caps = [1, 3], totalCap = 4\<rparr>"

text \<open>
  The emissions of one cycle under fixed weights. Round \<open>rnd\<close> offers the slots whose
  weight is at least \<open>rnd\<close>, in index order; \<open>slots_from\<close> is the part of a round from
  index \<open>idx\<close> on; a cycle runs through the rounds from 1 to the largest weight, and
  \<open>rest_of_cycle\<close> is what remains of it from slot \<open>idx\<close> of round \<open>rnd\<close> on.
\<close>

definition slots_from :: "int list \<Rightarrow> nat \<Rightarrow> int \<Rightarrow> nat list" where
  "slots_from ws idx rnd = filter (\<lambda>i. rnd \<le> ws ! i) [idx ..< length ws]"

definition round_slots :: "int list \<Rightarrow> int \<Rightarrow> nat list" where
  "round_slots ws rnd = slots_from ws 0 rnd"

definition rest_of_cycle :: "int list \<Rightarrow> nat \<Rightarrow> int \<Rightarrow> nat list" where
  "rest_of_cycle ws idx rnd =
     slots_from ws idx rnd @ concat (map (round_slots ws) [rnd + 1 .. Max (set ws)])"

definition cycle :: "int list \<Rightarrow> nat list" where
  "cycle ws = concat (map (round_slots ws) [1 .. Max (set ws)])"

text \<open>The selector at the start of a cycle: index 0 of round 1.\<close>

definition cycle_start :: "int list \<Rightarrow> WeightedRoundRobin" where
  "cycle_start ws = \<lparr>weights = ws, rounds = Max (set ws), currIndex = 0, currRound = 1\<rparr>"

text \<open>
  The selector with weights \<open>ws\<close> stands at slot \<open>idx\<close> of round \<open>rnd\<close>. The position
  just past the last slot of a round is the first slot of the next round, and the round
  after the last one is round 1.
\<close>

definition stands_at :: "WeightedRoundRobin \<Rightarrow> int list \<Rightarrow> nat \<Rightarrow> int \<Rightarrow> bool" where
  "stands_at r ws idx rnd \<longleftrightarrow>
     weights r = ws \<and> rounds r = Max (set ws) \<and>
     (if idx < length ws then currIndex r = idx \<and> currRound r = rnd
      else currIndex r = 0 \<and> currRound r = (if rnd + 1 > Max (set ws) then 1 else rnd + 1))"

definition cycle_measure :: "int list \<Rightarrow> nat \<Rightarrow> int \<Rightarrow> nat" where
  "cycle_measure ws idx rnd = nat (Max (set ws) - rnd) * Suc (length ws) + (length ws - idx)"

section \<open>Properties of the selector\<close>

lemma weights_advanceIndex [simp]: "weights (advanceIndex r) = weights r"
  by (simp add: advanceIndex_def Let_def)

lemma rounds_advanceIndex [simp]: "rounds (advanceIndex r) = rounds r"
  by (simp add: advanceIndex_def Let_def)

lemma currIndex_advanceIndex:
  "currIndex (advanceIndex r) =
     (if Suc (currIndex r) \<ge> length (weights r) then 0 else Suc (currIndex r))"
  by (simp add: advanceIndex_def Let_def)

lemma currRound_advanceIndex:
  "currRound (advanceIndex r) =
     (if Suc (currIndex r) \<ge> length (weights r)
      then (if currRound r + 1 > rounds r then 1 else currRound r + 1)
      else currRound r)"
  by (simp add: advanceIndex_def Let_def)

lemma currIndex_advanceIndex_less:
  "0 < length (weights r) \<Longrightarrow> currIndex (advanceIndex r) < length (weights r)"
  by (simp add: currIndex_advanceIndex)

lemma stuck_advanceIndex: "stuck r \<Longrightarrow> stuck (advanceIndex r)"
  by (auto simp: stuck_def currIndex_advanceIndex currRound_advanceIndex)

lemma stuck_no_result:
  assumes "Dispatch_loop r = Some y"
  shows "\<not> stuck r"
  using assms
proof (rule Dispatch_loop.raw_induct[where P = "\<lambda>r y. \<not> stuck r", rotated], goal_cases)
  case (1 f r y)
  show ?case
  proof
    assume H: "stuck r"
    then have idx: "currIndex r < length (weights r)" and rnd: "1 \<le> currRound r"
      and zero: "\<forall>w \<in> set (weights r). w < 1"
      by (simp_all add: stuck_def)
    from idx have "weights r ! currIndex r \<in> set (weights r)"
      by simp
    with zero have "weights r ! currIndex r < 1"
      by blast
    with rnd have "weights r ! currIndex r < currRound r"
      by linarith
    with H 1(2) have "f (advanceIndex r) = Some y" by (auto simp: stuck_def split: if_splits)
    with 1(1) stuck_advanceIndex[OF H] show False by blast
  qed
qed

lemma stuck_Dispatch_loop: "stuck r \<Longrightarrow> Dispatch_loop r = None"
  using stuck_no_result by (cases "Dispatch_loop r") auto

lemma stuck_Dispatch: "stuck r \<Longrightarrow> Dispatch r = None"
  by (simp add: Dispatch_def stuck_Dispatch_loop)

lemma skip_measure_advanceIndex:
  assumes idx: "currIndex r < length (weights r)"
    and i: "i < length (weights r)" "1 \<le> weights r ! i" "rounds r \<le> weights r ! i"
    and skip: "weights r ! currIndex r < currRound r"
  shows "skip_measure (advanceIndex r) < skip_measure r"
proof (cases "good r")
  case True
  then obtain j where j: "currIndex r \<le> j" "j < length (weights r)" "currRound r \<le> weights r ! j"
    unfolding good_def by blast
  with skip have "j \<noteq> currIndex r" by auto
  with j have j': "Suc (currIndex r) \<le> j" by simp
  with j have S: "Suc (currIndex r) < length (weights r)" by simp
  then have "good (advanceIndex r)"
    unfolding good_def using j j' by (auto simp: currIndex_advanceIndex currRound_advanceIndex)
  with True S show ?thesis
    by (simp add: skip_measure_def currIndex_advanceIndex)
next
  case False
  show ?thesis
  proof (cases "Suc (currIndex r) < length (weights r)")
    case True
    then have "currIndex (advanceIndex r) = Suc (currIndex r)"
      by (simp add: currIndex_advanceIndex)
    with False True show ?thesis
      unfolding skip_measure_def by (cases "good (advanceIndex r)") simp_all
  next
    case wrap: False
    then have "currIndex (advanceIndex r) = 0" "currRound (advanceIndex r) \<le> weights r ! i"
      using i by (auto simp: currIndex_advanceIndex currRound_advanceIndex)
    then have "good (advanceIndex r)"
      unfolding good_def using i by auto
    with False idx show ?thesis
      by (simp add: skip_measure_def currIndex_advanceIndex)
  qed
qed

lemma Dispatch_loop_terminates:
  assumes "currIndex r < length (weights r)"
    and "i < length (weights r)" "1 \<le> weights r ! i" "rounds r \<le> weights r ! i"
  shows "\<exists>r'. Dispatch_loop r = Some (Inr r') \<and> weights r' = weights r \<and> rounds r' = rounds r
            \<and> currIndex r' < length (weights r) \<and> currRound r' \<le> weights r ! currIndex r'"
  using assms
proof (induction "skip_measure r" arbitrary: r rule: less_induct)
  case less
  show ?case
  proof (cases "currRound r \<le> weights r ! currIndex r")
    case True
    with less.prems show ?thesis
      by (subst Dispatch_loop.simps) simp
  next
    case False
    then have skip: "weights r ! currIndex r < currRound r" by simp
    have m: "skip_measure (advanceIndex r) < skip_measure r"
      using skip_measure_advanceIndex[OF less.prems skip] .
    have "currIndex (advanceIndex r) < length (weights (advanceIndex r))"
      using less.prems(1) by (auto simp: currIndex_advanceIndex)
    from less.hyps[OF m this] less.prems(2-)
    obtain r' where "Dispatch_loop (advanceIndex r) = Some (Inr r')" "weights r' = weights r"
      "rounds r' = rounds r" "currIndex r' < length (weights r)" "currRound r' \<le> weights r ! currIndex r'"
      by auto
    moreover have "Dispatch_loop r = Dispatch_loop (advanceIndex r)"
      using skip less.prems(1) by (subst Dispatch_loop.simps) simp
    ultimately show ?thesis by simp
  qed
qed

lemma slices_Max_eq: "ws \<noteq> [] \<Longrightarrow> slices_Max ws = Inr (Max (set ws))"
proof (cases ws)
  case Nil
  moreover assume "ws \<noteq> []"
  ultimately show ?thesis by simp
next
  case (Cons x xs)
  have "fold max xs x = Max (set (x # xs))"
    by (rule Max.set_eq_fold[symmetric])
  with Cons show ?thesis
    by (simp add: slices_Max_def)
qed

lemma Dispatch_returns_index:
  assumes "currIndex r < length (weights r)"
    and "i < length (weights r)" "1 \<le> weights r ! i" "rounds r \<le> weights r ! i"
  shows "\<exists>k r'. Dispatch r = Some (Inr (k, r')) \<and> k < length (weights r)
            \<and> weights r' = weights r \<and> rounds r' = rounds r \<and> currIndex r' < length (weights r')"
proof -
  from Dispatch_loop_terminates[OF assms]
  obtain r1 where r1: "Dispatch_loop r = Some (Inr r1)" "weights r1 = weights r" "rounds r1 = rounds r"
    "currIndex r1 < length (weights r)" "currRound r1 \<le> weights r ! currIndex r1"
    by blast
  have "currIndex (advanceIndex r1) < length (weights r1)"
    using r1 by (auto simp: currIndex_advanceIndex)
  with r1 show ?thesis
    by (simp add: Dispatch_def)
qed


text \<open>
  Claim C2, as the code has it. The selector has no fallback for an all-zero weight
  vector. What holds is: whenever some weight is at least 1, the cursor index is in range
  and \<open>rounds\<close> does not exceed the largest weight (it is 0 after construction and the
  largest weight after \<open>UpdateWeights\<close>), \<open>Dispatch\<close> returns, the index it returns
  is in \<open>[0, N)\<close>, and the state it leaves satisfies the same conditions again, whatever
  the round counter was.
\<close>

theorem Dispatch_terminates:
  assumes "weights r \<noteq> []" and "1 \<le> Max (set (weights r))"
    and "rounds r \<le> Max (set (weights r))" and "currIndex r < length (weights r)"
  shows "\<exists>k r'. Dispatch r = Some (Inr (k, r')) \<and> k < length (weights r)
            \<and> weights r' = weights r \<and> rounds r' = rounds r \<and> currIndex r' < length (weights r')"
proof -
  from assms(1) have "Max (set (weights r)) \<in> set (weights r)"
    by (intro Max_in) simp_all
  then obtain i where "i < length (weights r)" "weights r ! i = Max (set (weights r))"
    by (auto simp: in_set_conv_nth)
  with assms(2,3) have "i < length (weights r)" "1 \<le> weights r ! i" "rounds r \<le> weights r ! i"
    by simp_all
  from Dispatch_returns_index[OF assms(4) this] show ?thesis .
qed

theorem Dispatch_terminates_witness:
  "\<exists>k r'. Dispatch \<lparr>weights = [1, 5, 2], rounds = 5, currIndex = 2, currRound = 3\<rparr> = Some (Inr (k, r'))
      \<and> k < length (weights \<lparr>weights = [1, 5, 2], rounds = 5, currIndex = 2, currRound = 3\<rparr>)
      \<and> weights r' = weights \<lparr>weights = [1, 5, 2], rounds = 5, currIndex = 2, currRound = 3\<rparr>
      \<and> rounds r' = rounds \<lparr>weights = [1, 5, 2], rounds = 5, currIndex = 2, currRound = 3\<rparr>
      \<and> currIndex r' < length (weights r')"
  by (rule Dispatch_terminates) simp_all

lemma Dispatch_passing:
  assumes "currIndex r < length (weights r)" and "currRound r \<le> weights r ! currIndex r"
  shows "Dispatch r = Some (Inr (currIndex r, advanceIndex r))"
  using assms by (simp add: Dispatch_def Dispatch_loop.simps)

lemma Dispatch_n_first_pass:
  assumes "n = length (weights r) - currIndex r" and "currIndex r < length (weights r)"
    and "\<forall>w \<in> set (weights r). currRound r \<le> w"
  shows "\<exists>r'. Dispatch_n n r = Some (Inr ([currIndex r ..< length (weights r)], r'))
            \<and> weights r' = weights r \<and> rounds r' = rounds r \<and> currIndex r' = 0
            \<and> currRound r' = (if rounds r < currRound r + 1 then 1 else currRound r + 1)"
  using assms
proof (induction n arbitrary: r)
  case 0
  then show ?case by simp
next
  case (Suc m)
  from Suc.prems have pass: "currRound r \<le> weights r ! currIndex r"
    by simp
  have D: "Dispatch r = Some (Inr (currIndex r, advanceIndex r))"
    using Dispatch_passing[OF Suc.prems(2) pass] .
  have upt: "[currIndex r ..< length (weights r)] = currIndex r # [Suc (currIndex r) ..< length (weights r)]"
    using Suc.prems(2) by (simp add: upt_conv_Cons)
  show ?case
  proof (cases m)
    case 0
    with Suc.prems have last: "Suc (currIndex r) = length (weights r)" by simp
    then have "currIndex (advanceIndex r) = 0"
      "currRound (advanceIndex r) = (if rounds r < currRound r + 1 then 1 else currRound r + 1)"
      by (simp_all add: currIndex_advanceIndex currRound_advanceIndex)
    with 0 D upt last show ?thesis by simp
  next
    case (Suc m')
    with Suc.prems have more: "Suc (currIndex r) < length (weights r)" by simp
    then have adv: "currIndex (advanceIndex r) = Suc (currIndex r)" "currRound (advanceIndex r) = currRound r"
      by (simp_all add: currIndex_advanceIndex currRound_advanceIndex)
    have "\<exists>r'. Dispatch_n m (advanceIndex r) =
            Some (Inr ([currIndex (advanceIndex r) ..< length (weights (advanceIndex r))], r'))
          \<and> weights r' = weights (advanceIndex r) \<and> rounds r' = rounds (advanceIndex r) \<and> currIndex r' = 0
          \<and> currRound r' = (if rounds (advanceIndex r) < currRound (advanceIndex r) + 1 then 1
                             else currRound (advanceIndex r) + 1)"
      using Suc.prems more adv by (intro Suc.IH) simp_all
    with adv D upt show ?thesis by auto
  qed
qed

text \<open>
  Claim C10: a selector fresh from \<open>NewWeightedRoundRobin\<close>, with or without a following
  \<open>UpdateWeights\<close>, is in round 0, and when no weight is negative its first \<open>N\<close> calls
  of \<open>Dispatch\<close> return \<open>0, 1, ..., N - 1\<close> in this order, zero-weight handlers
  included; after them the cursor is at index 0 of round 1.
\<close>

theorem fresh_selector_first_pass:
  assumes "\<forall>w \<in> set ws. 0 \<le> w"
    and "r = NewWeightedRoundRobin ws \<or> UpdateWeights (NewWeightedRoundRobin ws0) ws = Inr r"
  shows "currRound r = 0 \<and>
         (\<exists>r'. Dispatch_n (length ws) r = Some (Inr ([0 ..< length ws], r'))
               \<and> weights r' = ws \<and> currIndex r' = 0 \<and> (ws \<noteq> [] \<longrightarrow> currRound r' = 1))"
proof -
  from assms(2) have r: "weights r = ws" "currIndex r = 0" "currRound r = 0"
    by (auto simp: NewWeightedRoundRobin_def UpdateWeights_def split: sum.splits)
  show ?thesis
  proof (cases "ws = []")
    case True
    with r show ?thesis by simp
  next
    case False
    with r assms(1) have "length ws = length (weights r) - currIndex r"
      "currIndex r < length (weights r)" "\<forall>w \<in> set (weights r). currRound r \<le> w"
      by simp_all
    from Dispatch_n_first_pass[OF this] r show ?thesis by auto
  qed
qed

theorem fresh_selector_first_pass_witness:
  "currRound (NewWeightedRoundRobin [0, 3, 1]) = 0 \<and>
   (\<exists>r'. Dispatch_n (length [0, 3, 1 :: int]) (NewWeightedRoundRobin [0, 3, 1])
           = Some (Inr ([0 ..< length [0, 3, 1 :: int]], r'))
         \<and> weights r' = [0, 3, 1] \<and> currIndex r' = 0 \<and> currRound r' = 1)"
proof -
  have nonneg: "\<forall>w \<in> set [0, 3, 1 :: int]. 0 \<le> w"
    by simp
  have fresh: "NewWeightedRoundRobin [0, 3, 1] = NewWeightedRoundRobin [0, 3, 1]
       \<or> UpdateWeights (NewWeightedRoundRobin []) [0, 3, 1] = Inr (NewWeightedRoundRobin [0, 3, 1])"
    by simp
  have "[0, 3, 1 :: int] \<noteq> []"
    by simp
  with fresh_selector_first_pass [OF nonneg fresh] show ?thesis
    by blast
qed

text \<open>
  Claim C2 as stated fails: with weights \<open>[0, 0]\<close> the first two calls return 0 and 1
  and move the selector to round 1, where the third call never returns.
\<close>

theorem Dispatch_all_zero_counterexample:
  "UpdateWeights (NewWeightedRoundRobin [0, 0]) [0, 0]
     = Inr \<lparr>weights = [0, 0], rounds = 0, currIndex = 0, currRound = 0\<rparr>
   \<and> Dispatch_n 2 \<lparr>weights = [0, 0], rounds = 0, currIndex = 0, currRound = 0\<rparr>
     = Some (Inr ([0, 1], \<lparr>weights = [0, 0], rounds = 0, currIndex = 0, currRound = 1\<rparr>))
   \<and> Dispatch \<lparr>weights = [0, 0], rounds = 0, currIndex = 0, currRound = 1\<rparr> = None"
proof (intro conjI)
  show "UpdateWeights (NewWeightedRoundRobin [0, 0]) [0, 0]
     = Inr \<lparr>weights = [0, 0], rounds = 0, currIndex = 0, currRound = 0\<rparr>"
    by (simp add: UpdateWeights_def NewWeightedRoundRobin_def slices_Max_def)
  show "Dispatch_n 2 \<lparr>weights = [0, 0], rounds = 0, currIndex = 0, currRound = 0\<rparr>
     = Some (Inr ([0, 1], \<lparr>weights = [0, 0], rounds = 0, currIndex = 0, currRound = 1\<rparr>))"
    by code_simp
  have "stuck \<lparr>weights = [0, 0], rounds = 0, currIndex = 0, currRound = 1\<rparr>"
    by (simp add: stuck_def)
  then show "Dispatch \<lparr>weights = [0, 0], rounds = 0, currIndex = 0, currRound = 1\<rparr> = None"
    by (rule stuck_Dispatch)
qed

subsection \<open>Full cycles\<close>

lemma Dispatch_n_cong:
  assumes "Dispatch r = Dispatch r2" and "0 < n"
  shows "Dispatch_n n r = Dispatch_n n r2"
  using assms by (cases n) simp_all

lemma Dispatch_skipping:
  assumes "currIndex r < length (weights r)" and "weights r ! currIndex r < currRound r"
  shows "Dispatch_loop r = Dispatch_loop (advanceIndex r)" and "Dispatch r = Dispatch (advanceIndex r)"
proof -
  show "Dispatch_loop r = Dispatch_loop (advanceIndex r)"
    using assms by (subst Dispatch_loop.simps) simp
  then show "Dispatch r = Dispatch (advanceIndex r)"
    by (simp add: Dispatch_def)
qed

lemma slots_from_end [simp]: "slots_from ws (length ws) rnd = []"
  by (simp add: slots_from_def)

lemma slots_from_passing:
  assumes "idx < length ws" and "rnd \<le> ws ! idx"
  shows "slots_from ws idx rnd = idx # slots_from ws (Suc idx) rnd"
  using assms by (simp add: slots_from_def upt_conv_Cons)

lemma slots_from_skipping:
  assumes "idx < length ws" and "ws ! idx < rnd"
  shows "slots_from ws idx rnd = slots_from ws (Suc idx) rnd"
  using assms by (simp add: slots_from_def upt_conv_Cons)

lemma rest_of_cycle_next_round:
  assumes "rnd < Max (set ws)"
  shows "rest_of_cycle ws (length ws) rnd = rest_of_cycle ws 0 (rnd + 1)"
proof -
  have "[rnd + 1 .. Max (set ws)] = (rnd + 1) # [rnd + 1 + 1 .. Max (set ws)]"
    using assms by (intro upto_rec1) simp
  then show ?thesis
    by (simp add: rest_of_cycle_def round_slots_def)
qed

lemma rest_of_cycle_last: "rest_of_cycle ws (length ws) (Max (set ws)) = []"
  by (simp add: rest_of_cycle_def)

lemma stands_at_advanceIndex:
  assumes "stands_at r ws idx rnd" and "idx < length ws"
  shows "stands_at (advanceIndex r) ws (Suc idx) rnd"
  using assms by (auto simp: stands_at_def currIndex_advanceIndex currRound_advanceIndex)

lemma stands_at_next_round:
  assumes "stands_at r ws (length ws) rnd" and "rnd < Max (set ws)" and "ws \<noteq> []"
  shows "stands_at r ws 0 (rnd + 1)"
proof -
  from assms(2) have "(if rnd + 1 > Max (set ws) then 1 else rnd + 1) = rnd + 1"
    by simp
  with assms(1) have "weights r = ws" "rounds r = Max (set ws)" "currIndex r = 0"
    "currRound r = rnd + 1"
    by (simp_all add: stands_at_def)
  with assms(3) show ?thesis
    by (simp add: stands_at_def)
qed

lemma stands_at_last:
  assumes "stands_at r ws (length ws) (Max (set ws))"
  shows "r = cycle_start ws"
  using assms by (simp add: stands_at_def cycle_start_def)


lemma Dispatch_n_rest_of_cycle:
  assumes "stands_at r ws idx rnd" and "idx \<le> length ws" and "ws \<noteq> []"
    and "1 \<le> rnd" and "rnd \<le> Max (set ws)"
  shows "\<exists>r'. Dispatch_n (length (rest_of_cycle ws idx rnd)) r = Some (Inr (rest_of_cycle ws idx rnd, r'))
           \<and> Dispatch_loop r' = Dispatch_loop (cycle_start ws)"
  using assms
proof (induction "cycle_measure ws idx rnd" arbitrary: r idx rnd rule: less_induct)
  case less
  show ?case
  proof (cases "idx < length ws")
    case False
    with less.prems(2) have idx: "idx = length ws" by simp
    show ?thesis
    proof (cases "rnd = Max (set ws)")
      case True
      with less.prems(1) idx have "r = cycle_start ws"
        by (simp add: stands_at_last)
      with True idx show ?thesis
        by (simp add: rest_of_cycle_last)
    next
      case False
      with less.prems(5) have lt: "rnd < Max (set ws)" by simp
      have pos: "stands_at r ws 0 (rnd + 1)"
        using stands_at_next_round[OF _ lt less.prems(3)] less.prems(1) idx by simp
      have "cycle_measure ws 0 (rnd + 1) < cycle_measure ws idx rnd"
      proof -
        from lt have "nat (Max (set ws) - rnd) = Suc (nat (Max (set ws) - (rnd + 1)))"
          by simp
        then show ?thesis
          by (simp add: cycle_measure_def idx)
      qed
      from less.hyps[OF this pos _ less.prems(3)] less.prems(4) lt
      have "\<exists>r'. Dispatch_n (length (rest_of_cycle ws 0 (rnd + 1))) r
                   = Some (Inr (rest_of_cycle ws 0 (rnd + 1), r'))
                 \<and> Dispatch_loop r' = Dispatch_loop (cycle_start ws)"
        by simp
      then show ?thesis
        by (simp add: idx rest_of_cycle_next_round[OF lt])
    qed
  next
    case True
    with less.prems(1) have cur: "weights r = ws" "currIndex r = idx" "currRound r = rnd"
      by (simp_all add: stands_at_def)
    have adv: "stands_at (advanceIndex r) ws (Suc idx) rnd"
      using stands_at_advanceIndex[OF less.prems(1) True] .
    have m: "cycle_measure ws (Suc idx) rnd < cycle_measure ws idx rnd"
      using True by (simp add: cycle_measure_def)
    from True have "Suc idx \<le> length ws" by simp
    from less.hyps[OF m adv this less.prems(3,4,5)]
    obtain r' where r': "Dispatch_n (length (rest_of_cycle ws (Suc idx) rnd)) (advanceIndex r)
                           = Some (Inr (rest_of_cycle ws (Suc idx) rnd, r'))"
      "Dispatch_loop r' = Dispatch_loop (cycle_start ws)"
      by blast
    show ?thesis
    proof (cases "rnd \<le> ws ! idx")
      case pass: True
      have "Dispatch r = Some (Inr (idx, advanceIndex r))"
        using Dispatch_passing[of r] True pass cur by simp
      moreover have "rest_of_cycle ws idx rnd = idx # rest_of_cycle ws (Suc idx) rnd"
        using slots_from_passing[OF True pass] by (simp add: rest_of_cycle_def)
      ultimately show ?thesis
        using r' by simp
    next
      case False
      then have skip: "ws ! idx < rnd" by simp
      have D: "Dispatch_loop r = Dispatch_loop (advanceIndex r)" "Dispatch r = Dispatch (advanceIndex r)"
        using Dispatch_skipping[of r] True skip cur by simp_all
      have same: "rest_of_cycle ws idx rnd = rest_of_cycle ws (Suc idx) rnd"
        using slots_from_skipping[OF True skip] by (simp add: rest_of_cycle_def)
      show ?thesis
      proof (cases "rest_of_cycle ws idx rnd = []")
        case True
        with same r' have "r' = advanceIndex r"
          by simp
        with r'(2) D(1) True show ?thesis
          by simp
      next
        case False
        then have "0 < length (rest_of_cycle ws (Suc idx) rnd)"
          using same by simp
        from Dispatch_n_cong[OF D(2) this] r' same show ?thesis
          by simp
      qed
    qed
  qed
qed


lemma count_list_filter_eq:
  "count_list (filter P xs) x = (if P x then count_list xs x else 0)"
  by (induction xs) auto

lemma count_list_upt: "count_list [0 ..< n] i = (if i < n then 1 else 0)"
  by (induction n) auto

lemma count_round_slots:
  "count_list (round_slots ws rnd) i = (if i < length ws \<and> rnd \<le> ws ! i then 1 else 0)"
  by (simp add: round_slots_def slots_from_def count_list_filter_eq count_list_upt)

lemma rounds_up_to_weight:
  assumes "0 \<le> w"
  shows "(\<Sum>rnd\<leftarrow>[1 .. int k]. if rnd \<le> w then 1 else 0) = min (nat w) k"
proof (induction k)
  case 0
  show ?case by simp
next
  case (Suc k)
  have "[1 .. int (Suc k)] = [1 .. int k] @ [int (Suc k)]"
    using upto_rec2[of 1 "int (Suc k)"] by simp
  with Suc assms show ?case
    by auto
qed

lemma count_cycle:
  assumes "ws \<noteq> []" and "i < length ws" and "0 \<le> ws ! i"
  shows "count_list (cycle ws) i = nat (ws ! i)"
proof -
  let ?R = "Max (set ws)"
  from assms(2) have le: "ws ! i \<le> ?R"
    by simp
  with assms(3) have R: "0 \<le> ?R"
    by linarith
  have "count_list (cycle ws) i = (\<Sum>rnd\<leftarrow>[1 .. ?R]. if rnd \<le> ws ! i then 1 else 0)"
    using assms(2) by (simp add: cycle_def count_list_concat count_round_slots comp_def)
  also have "\<dots> = (\<Sum>rnd\<leftarrow>[1 .. int (nat ?R)]. if rnd \<le> ws ! i then 1 else 0)"
    using R by simp
  also have "\<dots> = min (nat (ws ! i)) (nat ?R)"
    using rounds_up_to_weight[OF assms(3)] .
  also have "\<dots> = nat (ws ! i)"
    using le by simp
  finally show ?thesis .
qed

lemma set_cycle: "set (cycle ws) \<subseteq> {..<length ws}"
  by (auto simp: cycle_def round_slots_def slots_from_def)

lemma length_cycle:
  assumes "ws \<noteq> []" and "\<forall>w \<in> set ws. 0 \<le> w"
  shows "length (cycle ws) = nat (sum_list ws)"
proof -
  have "int (length (cycle ws)) = int (sum (count_list (cycle ws)) {..<length ws})"
    using sum_count_set[OF set_cycle, of ws] by simp
  also have "\<dots> = (\<Sum>i<length ws. int (count_list (cycle ws) i))"
    by simp
  also have "\<dots> = (\<Sum>i<length ws. ws ! i)"
  proof (rule sum.cong)
    fix i assume "i \<in> {..<length ws}"
    then have i: "i < length ws" by simp
    with assms(2) have "0 \<le> ws ! i" by simp
    from count_cycle[OF assms(1) i this] this show "int (count_list (cycle ws) i) = ws ! i"
      by simp
  qed simp
  also have "\<dots> = sum_list ws"
    by (simp add: sum_list_sum_nth atLeast0LessThan)
  finally show ?thesis
    by simp
qed

lemma round_slots_increasing: "sorted_wrt (<) (round_slots ws rnd)"
  by (simp add: round_slots_def slots_from_def sorted_wrt_filter)

text \<open>
  Claim C5: under fixed weights without negative entries and with largest weight
  \<open>rounds \<ge> 1\<close>, the selector started at index 0 of round 1 makes exactly
  \<open>\<Sum> weight\<close> emissions until its cursor is back at the start of round 1. Handler
  \<open>i\<close> is emitted exactly \<open>weight[i]\<close> times among them. The emissions are interleaved
  across the rounds: they are the rounds \<open>1, ..., rounds\<close> one after the other, and round
  \<open>rnd\<close> emits every handler of weight at least \<open>rnd\<close> once, in index order.
\<close>

theorem full_cycle_emissions:
  assumes "ws \<noteq> []" and "\<forall>w \<in> set ws. 0 \<le> w" and "1 \<le> Max (set ws)"
  shows "\<exists>r'. Dispatch_n (nat (sum_list ws)) (cycle_start ws) = Some (Inr (cycle ws, r'))
           \<and> Dispatch_loop r' = Dispatch_loop (cycle_start ws)
           \<and> (\<forall>i<length ws. count_list (cycle ws) i = nat (ws ! i))
           \<and> cycle ws = concat (map (round_slots ws) [1 .. Max (set ws)])
           \<and> (\<forall>rnd. sorted_wrt (<) (round_slots ws rnd)
                  \<and> set (round_slots ws rnd) = {i. i < length ws \<and> rnd \<le> ws ! i})"
proof -
  have start: "stands_at (cycle_start ws) ws 0 1"
    using assms(1) by (simp add: stands_at_def cycle_start_def)
  have "rest_of_cycle ws 0 1 = cycle ws"
  proof -
    have "[1 .. Max (set ws)] = 1 # [1 + 1 .. Max (set ws)]"
      using assms(3) by (rule upto_rec1)
    then show ?thesis
      by (simp add: rest_of_cycle_def cycle_def round_slots_def)
  qed
  with Dispatch_n_rest_of_cycle[OF start _ assms(1) _ assms(3)]
  obtain r' where r': "Dispatch_n (length (cycle ws)) (cycle_start ws) = Some (Inr (cycle ws, r'))"
    "Dispatch_loop r' = Dispatch_loop (cycle_start ws)"
    by auto
  have counts: "\<forall>i<length ws. count_list (cycle ws) i = nat (ws ! i)"
    using count_cycle[OF assms(1)] assms(2) by simp
  have slots: "\<forall>rnd. sorted_wrt (<) (round_slots ws rnd)
                  \<and> set (round_slots ws rnd) = {i. i < length ws \<and> rnd \<le> ws ! i}"
    using round_slots_increasing by (auto simp: round_slots_def slots_from_def)
  from r' counts slots show ?thesis
    unfolding length_cycle[OF assms(1,2)] by (simp add: cycle_def)
qed

theorem full_cycle_emissions_witness:
  "\<exists>r'. Dispatch_n (nat (sum_list [1, 5, 2])) (cycle_start [1, 5, 2]) = Some (Inr (cycle [1, 5, 2], r'))
      \<and> cycle [1, 5, 2] = [0, 1, 2, 1, 2, 1, 1, 1]
      \<and> count_list (cycle [1, 5, 2]) 0 = 1 \<and> count_list (cycle [1, 5, 2]) 1 = 5
      \<and> count_list (cycle [1, 5, 2]) 2 = 2"
proof -
  have "[1, 5, 2 :: int] \<noteq> []" "\<forall>w \<in> set [1, 5, 2 :: int]. 0 \<le> w" "1 \<le> Max (set [1, 5, 2 :: int])"
    by simp_all
  from full_cycle_emissions [OF this]
  obtain r' where r': "Dispatch_n (nat (sum_list [1, 5, 2])) (cycle_start [1, 5, 2])
                         = Some (Inr (cycle [1, 5, 2], r'))"
    "\<forall>i<length [1, 5, 2 :: int]. count_list (cycle [1, 5, 2]) i = nat ([1, 5, 2] ! i)"
    by blast
  from r'(2) have "count_list (cycle [1, 5, 2]) 0 = 1" "count_list (cycle [1, 5, 2]) 1 = 5"
    "count_list (cycle [1, 5, 2]) 2 = 2"
    by simp_all
  moreover have "cycle [1, 5, 2] = [0, 1, 2, 1, 2, 1, 1, 1]"
    by code_simp
  ultimately show ?thesis
    using r'(1) by blast
qed

section \<open>Properties of the load balancer\<close>

subsection \<open>Backoff\<close>

lemma backoff_nonneg:
  assumes "0 \<le> a" and "0 \<le> BackoffMaxExponent cfg"
  shows "backoff cfg a = Inr (BackoffUnit cfg * 2 ^ nat (min a (BackoffMaxExponent cfg)))"
  using assms by (simp add: backoff_def Let_def push_bit_eq_mult min.commute)

lemma sint_mult_no_overflow:
  fixes w :: "64 word"
  assumes "0 \<le> sint w" and "sint w * 2 ^ n < 2 ^ 63"
  shows "sint (w * 2 ^ n) = sint w * 2 ^ n"
proof -
  have "w * 2 ^ n = word_of_int (sint w * 2 ^ n)"
    by simp
  then have "sint (w * 2 ^ n) = signed_take_bit 63 (sint w * 2 ^ n)"
    by (simp only: sint_sbintrunc') simp
  also have "\<dots> = sint w * 2 ^ n"
  proof (rule signed_take_bit_int_eq_self)
    show "- (2 ^ 63) \<le> sint w * 2 ^ n"
      using assms(1) by (meson mult_nonneg_nonneg neg_le_0_iff_le order_trans zero_le_numeral zero_le_power)
    show "sint w * 2 ^ n < 2 ^ 63" by fact
  qed
  finally show ?thesis .
qed

text \<open>
  Claim C7: for an attempt counter \<open>a \<ge> 0\<close> (and a maximal exponent that is not
  negative, without which the shift panics) \<open>backoff\<close> sleeps for
  \<open>BackoffUnit * 2 ^ min a BackoffMaxExponent\<close>, and from \<open>a = BackoffMaxExponent\<close> on
  for \<open>BackoffUnit * 2 ^ BackoffMaxExponent\<close>. The equation holds in the 64-bit
  arithmetic of \<open>time.Duration\<close>, and it holds for the integer values whenever the
  largest sleep \<open>BackoffUnit * 2 ^ BackoffMaxExponent\<close> fits into 63 bits, as it does
  for the default configuration.
\<close>

theorem backoff_duration:
  assumes "0 \<le> a" and "0 \<le> BackoffMaxExponent cfg"
  shows "\<exists>d. backoff cfg a = Inr d
           \<and> d = BackoffUnit cfg * 2 ^ nat (min a (BackoffMaxExponent cfg))
           \<and> (BackoffMaxExponent cfg \<le> a \<longrightarrow> d = BackoffUnit cfg * 2 ^ nat (BackoffMaxExponent cfg))
           \<and> (0 \<le> sint (BackoffUnit cfg)
                \<and> sint (BackoffUnit cfg) * 2 ^ nat (BackoffMaxExponent cfg) < 2 ^ 63 \<longrightarrow>
              sint d = sint (BackoffUnit cfg) * 2 ^ nat (min a (BackoffMaxExponent cfg)))"
proof -
  let ?e = "nat (min a (BackoffMaxExponent cfg))"
  let ?d = "BackoffUnit cfg * 2 ^ ?e"
  have d: "backoff cfg a = Inr ?d"
    using backoff_nonneg[OF assms] .
  have plateau: "BackoffMaxExponent cfg \<le> a \<longrightarrow> ?d = BackoffUnit cfg * 2 ^ nat (BackoffMaxExponent cfg)"
    by (simp add: min_def)
  have exact: "sint ?d = sint (BackoffUnit cfg) * 2 ^ ?e"
    if u: "0 \<le> sint (BackoffUnit cfg)"
      and b: "sint (BackoffUnit cfg) * 2 ^ nat (BackoffMaxExponent cfg) < 2 ^ 63"
  proof -
    have "?e \<le> nat (BackoffMaxExponent cfg)"
      by simp
    then have "(2::int) ^ ?e \<le> 2 ^ nat (BackoffMaxExponent cfg)"
      by (intro power_increasing) simp_all
    with u have "sint (BackoffUnit cfg) * 2 ^ ?e \<le> sint (BackoffUnit cfg) * 2 ^ nat (BackoffMaxExponent cfg)"
      by (rule mult_left_mono[rotated])
    with b have "sint (BackoffUnit cfg) * 2 ^ ?e < 2 ^ 63"
      by linarith
    from sint_mult_no_overflow[OF u this] show ?thesis .
  qed
  from d plateau exact show ?thesis by blast
qed

lemma sint_default_unit: "sint (BackoffUnit defaultConfig) = 100000000"
  by (simp add: defaultConfig_def Millisecond_def)

theorem backoff_duration_witness:
  "backoff defaultConfig 12 = Inr 102400000000 \<and> backoff defaultConfig 3 = Inr 800000000"
proof -
  have "\<exists>d. backoff defaultConfig 12 = Inr d \<and> d = BackoffUnit defaultConfig * 2 ^ nat (min 12 (BackoffMaxExponent defaultConfig))"
    using backoff_duration [of 12 defaultConfig] by (simp add: defaultConfig_def)
  moreover have "\<exists>d. backoff defaultConfig 3 = Inr d \<and> d = BackoffUnit defaultConfig * 2 ^ nat (min 3 (BackoffMaxExponent defaultConfig))"
    using backoff_duration [of 3 defaultConfig] by (simp add: defaultConfig_def)
  ultimately show ?thesis
    by (simp add: defaultConfig_def Millisecond_def)
qed

subsection \<open>tryDispatch\<close>


lemma tryDispatch_loop_exit:
  assumes "\<not> Done ctx a" and "index < length (dispatch l)" and "index < length (calls l)"
    and "(dispatch l ! index) p a = (res', err)" and "\<not> errors_Is_ErrExceedCap err"
  shows "tryDispatch_loop ctx p index a res slept l
           = Some (Inr ((res', err, slept), l\<lparr>calls := (calls l)[index := calls l ! index + 1]\<rparr>))"
  using assms by (subst tryDispatch_loop.simps) simp

lemma tryDispatch_loop_retry:
  assumes "\<not> Done ctx a" and "index < length (dispatch l)" and "index < length (rejections l)"
    and "(dispatch l ! index) p a = (res', err)" and "errors_Is_ErrExceedCap err"
    and "backoff (config l) (int a) = Inr d"
  shows "tryDispatch_loop ctx p index a res slept l
           = tryDispatch_loop ctx p index (Suc a) res' (slept @ [d])
               (l\<lparr>rejections := (rejections l)[index := rejections l ! index + 1]\<rparr>)"
  using assms by (subst tryDispatch_loop.simps) simp


lemma tryDispatch_loop_rejections:
  assumes "index < length (dispatch l)" and "index < length (rejections l)"
    and "0 \<le> BackoffMaxExponent (config l)"
    and "\<forall>j<k. \<not> Done ctx (a + j) \<and> errors_Is_ErrExceedCap (snd ((dispatch l ! index) p (a + j)))"
  shows "\<exists>res' sl. tryDispatch_loop ctx p index a res slept l
             = tryDispatch_loop ctx p index (a + k) res' (slept @ sl)
                 (l\<lparr>rejections := (rejections l)[index := rejections l ! index + of_nat k]\<rparr>)
           \<and> length sl = k \<and> (k = 0 \<longrightarrow> res' = res)
           \<and> (\<forall>j<k. backoff (config l) (int (a + j)) = Inr (sl ! j))"
  using assms
proof (induction k arbitrary: a res slept l)
  case 0
  have "l\<lparr>rejections := (rejections l)[index := rejections l ! index + of_nat 0]\<rparr> = l"
    by simp
  then show ?case by simp
next
  case (Suc k)
  let ?h = "dispatch l ! index"
  obtain res1 err1 where h: "?h p a = (res1, err1)"
    by (cases "?h p a")
  from Suc.prems(4) have first: "\<not> Done ctx a" "errors_Is_ErrExceedCap (snd (?h p a))"
    by (metis add.right_neutral zero_less_Suc)+
  with h have err1: "errors_Is_ErrExceedCap err1" by simp
  obtain d where d: "backoff (config l) (int a) = Inr d"
    using backoff_nonneg[of "int a" "config l"] Suc.prems(3) by simp
  let ?l1 = "l\<lparr>rejections := (rejections l)[index := rejections l ! index + 1]\<rparr>"
  have step: "tryDispatch_loop ctx p index a res slept l
                = tryDispatch_loop ctx p index (Suc a) res1 (slept @ [d]) ?l1"
    using tryDispatch_loop_retry[OF first(1) Suc.prems(1,2) h err1 d] .
  have rest: "\<forall>j<k. \<not> Done ctx (Suc a + j)
                \<and> errors_Is_ErrExceedCap (snd ((dispatch ?l1 ! index) p (Suc a + j)))"
  proof (intro allI impI)
    fix j assume "j < k"
    then have "Suc j < Suc k" by simp
    with Suc.prems(4) have "\<not> Done ctx (a + Suc j)
        \<and> errors_Is_ErrExceedCap (snd ((dispatch l ! index) p (a + Suc j)))"
      by blast
    then show "\<not> Done ctx (Suc a + j)
        \<and> errors_Is_ErrExceedCap (snd ((dispatch ?l1 ! index) p (Suc a + j)))"
      by simp
  qed
  have "\<exists>res' sl. tryDispatch_loop ctx p index (Suc a) res1 (slept @ [d]) ?l1
             = tryDispatch_loop ctx p index (Suc a + k) res' ((slept @ [d]) @ sl)
                 (?l1\<lparr>rejections := (rejections ?l1)[index := rejections ?l1 ! index + of_nat k]\<rparr>)
           \<and> length sl = k \<and> (k = 0 \<longrightarrow> res' = res1)
           \<and> (\<forall>j<k. backoff (config ?l1) (int (Suc a + j)) = Inr (sl ! j))"
    using Suc.prems(1,2,3) rest by (intro Suc.IH) simp_all
  then obtain res' sl where IH:
    "tryDispatch_loop ctx p index (Suc a) res1 (slept @ [d]) ?l1
       = tryDispatch_loop ctx p index (Suc a + k) res' ((slept @ [d]) @ sl)
           (?l1\<lparr>rejections := (rejections ?l1)[index := rejections ?l1 ! index + of_nat k]\<rparr>)"
    "length sl = k" "\<forall>j<k. backoff (config ?l1) (int (Suc a + j)) = Inr (sl ! j)"
    by blast
  have state: "?l1\<lparr>rejections := (rejections ?l1)[index := rejections ?l1 ! index + of_nat k]\<rparr>
                 = l\<lparr>rejections := (rejections l)[index := rejections l ! index + of_nat (Suc k)]\<rparr>"
    using Suc.prems(2) by (simp add: algebra_simps)
  have sleeps: "\<forall>j<Suc k. backoff (config l) (int (a + j)) = Inr ((d # sl) ! j)"
  proof (intro allI impI)
    fix j assume j: "j < Suc k"
    show "backoff (config l) (int (a + j)) = Inr ((d # sl) ! j)"
    proof (cases j)
      case 0
      with d show ?thesis by simp
    next
      case (Suc j')
      with j have "j' < k" by simp
      with IH(3) have "backoff (config ?l1) (int (Suc a + j')) = Inr (sl ! j')" by blast
      with Suc show ?thesis by simp
    qed
  qed
  have "tryDispatch_loop ctx p index a res slept l
          = tryDispatch_loop ctx p index (a + Suc k) res' (slept @ (d # sl))
              (l\<lparr>rejections := (rejections l)[index := rejections l ! index + of_nat (Suc k)]\<rparr>)"
    using step IH(1) state by simp
  moreover have "length (d # sl) = Suc k"
    using IH(2) by simp
  ultimately show ?case
    using sleeps by blast
qed


lemma tryDispatch_returns:
  assumes "index < length (dispatch l)" and "index < length (rejections l)"
    and "index < length (calls l)" and "0 \<le> BackoffMaxExponent (config l)"
    and "\<forall>j<k. \<not> Done ctx j \<and> errors_Is_ErrExceedCap (snd ((dispatch l ! index) p j))"
    and "\<not> Done ctx k" and "(dispatch l ! index) p k = (res, err)"
    and "\<not> errors_Is_ErrExceedCap err"
  shows "\<exists>sl. tryDispatch zero ctx p index l
             = Some (Inr ((res, err, sl),
                  l\<lparr>rejections := (rejections l)[index := rejections l ! index + of_nat k],
                    calls := (calls l)[index := calls l ! index + 1]\<rparr>))
           \<and> length sl = k"
proof -
  from assms(5) have "\<forall>j<k. \<not> Done ctx (0 + j)
      \<and> errors_Is_ErrExceedCap (snd ((dispatch l ! index) p (0 + j)))"
    by simp
  from tryDispatch_loop_rejections[OF assms(1,2,4) this, of zero "[]"]
  obtain res' sl where loop:
    "tryDispatch_loop ctx p index 0 zero [] l
       = tryDispatch_loop ctx p index (0 + k) res' ([] @ sl)
           (l\<lparr>rejections := (rejections l)[index := rejections l ! index + of_nat k]\<rparr>)"
    "length sl = k"
    by blast
  let ?l = "l\<lparr>rejections := (rejections l)[index := rejections l ! index + of_nat k]\<rparr>"
  have "tryDispatch_loop ctx p index k res' sl ?l
          = Some (Inr ((res, err, sl), ?l\<lparr>calls := (calls ?l)[index := calls ?l ! index + 1]\<rparr>))"
    using assms by (intro tryDispatch_loop_exit) simp_all
  with loop show ?thesis
    by (simp add: tryDispatch_def)
qed




text \<open>
  Claim C1 says that a handler error other than the capacity sentinel leaves
  \<open>calls[index]\<close> alone. The code increments \<open>calls[index]\<close> after the loop on every
  exit through \<open>break\<close>, whether the handler succeeded or failed: here the only handler
  fails at once with another error, and \<open>calls\<close> goes from \<open>[0]\<close> to \<open>[1]\<close>.
\<close>

theorem tryDispatch_counts_failed_call:
  "tryDispatch 0 never_done () 0 (single_handler_balancer always_failing)
     = Some (Inr ((0, Some (OtherError ''boom''), []),
          (single_handler_balancer always_failing)\<lparr>calls := [1]\<rparr>))"
  by (simp add: tryDispatch_def tryDispatch_loop.simps never_done_def single_handler_balancer_def
      always_failing_def errors_Is_ErrExceedCap_def)

subsection \<open>Weight recomputation and construction\<close>

lemma newWeights_loop_result:
  assumes "i + length cs \<le> length nw"
  shows "newWeights_loop fl tc cs i nw
           = Inr (take i nw @ map (\<lambda>c. go_int (fl (fl (c / tc) * 100))) cs @ drop (i + length cs) nw)"
  using assms
proof (induction cs arbitrary: i nw)
  case Nil
  then show ?case by simp
next
  case (Cons c cs)
  let ?nw = "nw[i := go_int (fl (fl (c / tc) * 100))]"
  from Cons.prems have i: "i < length nw" by simp
  from Cons.prems have "Suc i + length cs \<le> length ?nw" by simp
  from Cons.IH[OF this]
  have "newWeights_loop fl tc cs (Suc i) ?nw
          = Inr (take (Suc i) ?nw @ map (\<lambda>c. go_int (fl (fl (c / tc) * 100))) cs
                 @ drop (Suc i + length cs) ?nw)" .
  moreover have "take (Suc i) ?nw = take i nw @ [go_int (fl (fl (c / tc) * 100))]"
    using i by (simp add: take_Suc_conv_app_nth)
  moreover have "drop (Suc i + length cs) ?nw = drop (Suc i + length cs) nw"
    by simp
  ultimately show ?case
    using i by simp
qed

lemma updateWeights_result:
  assumes "length (caps l) = length (dispatch l)" and "caps l \<noteq> []"
  shows "updateWeights fl l
           = Inr (l\<lparr>totalCap := totalCap_loop fl (caps l),
                    wrr := (wrr l)\<lparr>weights := map (\<lambda>c. go_int (fl (fl (c / totalCap_loop fl (caps l)) * 100))) (caps l),
                                   rounds := Max (set (map (\<lambda>c. go_int (fl (fl (c / totalCap_loop fl (caps l)) * 100))) (caps l)))\<rparr>\<rparr>)"
proof -
  let ?ws = "map (\<lambda>c. go_int (fl (fl (c / totalCap_loop fl (caps l)) * 100))) (caps l)"
  have "newWeights_loop fl (totalCap_loop fl (caps l)) (caps l) 0 (replicate (length (dispatch l)) 0) = Inr ?ws"
    using assms(1) by (subst newWeights_loop_result) simp_all
  moreover have "UpdateWeights (wrr l) ?ws = Inr ((wrr l)\<lparr>weights := ?ws, rounds := Max (set ?ws)\<rparr>)"
    using assms(2) by (simp add: UpdateWeights_def slices_Max_eq)
  ultimately show ?thesis
    by (simp add: updateWeights_def Let_def)
qed

lemma updateWeights_empty:
  assumes "caps l = []" and "dispatch l = []"
  shows "updateWeights fl l = Inl EmptyMax"
  using assms by (simp add: updateWeights_def UpdateWeights_def slices_Max_def Let_def)

lemma totalCap_loop_exact: "totalCap_loop (\<lambda>x. x) cs = sum_list cs"
proof -
  have "fold (\<lambda>c t. t + c) cs (a :: real) = a + sum_list cs" for a
    by (induction cs arbitrary: a) simp_all
  then show ?thesis
    by (simp add: totalCap_loop_def)
qed

lemma fold_add_at_least:
  assumes "mono fl" and "\<forall>n \<le> N. fl (real n) = real n"
    and "\<forall>c \<in> set cs. 1 \<le> c" and "real k \<le> t" and "k + length cs \<le> N"
  shows "real (k + length cs) \<le> fold (\<lambda>c t. fl (t + c)) cs t"
  using assms(3-)
proof (induction cs arbitrary: k t)
  case Nil
  then show ?case by simp
next
  case (Cons c cs)
  from Cons.prems have "real (Suc k) \<le> t + c"
    by simp
  with assms(1) have "fl (real (Suc k)) \<le> fl (t + c)"
    by (rule monoD)
  moreover from Cons.prems have "Suc k \<le> N"
    by simp
  with assms(2) have "fl (real (Suc k)) = real (Suc k)"
    by blast
  ultimately have "real (Suc k) \<le> fl (t + c)"
    by simp
  from Cons.IH[OF _ this] Cons.prems show ?case
    by simp
qed

lemma totalCap_loop_at_least:
  assumes "mono fl" and "\<forall>n \<le> length cs. fl (real n) = real n" and "\<forall>c \<in> set cs. 1 \<le> c"
  shows "real (length cs) \<le> totalCap_loop fl cs"
  using fold_add_at_least[OF assms, of 0 0] by (simp add: totalCap_loop_def)

lemma single_handler_balancer_New:
  assumes "fl 1 = 1" and "fl 100 = 100"
  shows "NewLoadBalancer fl [\<lparr>EstCap = 0, HDispatch = h\<rparr>] = Inr (single_handler_balancer h)"
  using assms
  by (simp add: NewLoadBalancer_def updateWeights_def UpdateWeights_def slices_Max_def
      NewWeightedRoundRobin_def single_handler_balancer_def go_int_def Let_def totalCap_loop_def)

text \<open>
  Claim C9: \<open>NewLoadBalancer\<close> on an empty handler list panics, and the panic is the one
  of \<open>slices.Max\<close> on the empty weight slice that \<open>updateWeights\<close> hands to
  \<open>UpdateWeights\<close>. On every non-empty handler list it succeeds; then every capacity is
  \<open>max EstCap 1\<close> and \<open>totalCap\<close> is their sum as the loop of additions computes it,
  which is at least \<open>N > 0\<close>, so the divisions by \<open>totalCap\<close> that gave the weights are
  well defined. The bound on the sum uses of the rounding only that it is monotone and
  leaves the whole numbers up to \<open>N\<close> unchanged, as the rounding of \<open>float64\<close> does for
  every \<open>N\<close> up to \<open>2^53\<close>; with exact arithmetic (the identity for \<open>fl\<close>) nothing is
  assumed.
\<close>

theorem NewLoadBalancer_panics_iff_empty:
  "NewLoadBalancer fl ([] :: ('t, 'u) Handler list) = Inl EmptyMax
   \<and> ((handlers :: ('t, 'u) Handler list) \<noteq> [] \<longrightarrow>
        (\<exists>l. NewLoadBalancer fl handlers = Inr l
            \<and> caps l = map (\<lambda>ds. max (EstCap ds) 1) handlers
            \<and> totalCap l = totalCap_loop fl (caps l)
            \<and> 0 < length handlers
            \<and> weights (wrr l) = map (\<lambda>c. go_int (fl (fl (c / totalCap l) * 100))) (caps l)
            \<and> (mono fl \<and> (\<forall>n \<le> length handlers. fl (real n) = real n) \<longrightarrow>
                 real (length handlers) \<le> totalCap l \<and> 0 < totalCap l)))"
proof (intro conjI impI)
  show "NewLoadBalancer fl ([] :: ('t, 'u) Handler list) = Inl EmptyMax"
    by (simp add: NewLoadBalancer_def updateWeights_empty)
next
  assume ne: "handlers \<noteq> []"
  let ?l0 = "\<lparr>config = defaultConfig,
         wrr = NewWeightedRoundRobin (replicate (length handlers) 0),
         dispatch = map HDispatch handlers,
         calls = replicate (length handlers) 0,
         rejections = replicate (length handlers) 0,
         caps = map (\<lambda>ds. max (EstCap ds) 1) handlers,
         totalCap = 0\<rparr>"
  have "length (caps ?l0) = length (dispatch ?l0)" "caps ?l0 \<noteq> []"
    using ne by simp_all
  from updateWeights_result[OF this, of fl]
  obtain l where l: "NewLoadBalancer fl handlers = Inr l"
    "caps l = map (\<lambda>ds. max (EstCap ds) 1) handlers" "totalCap l = totalCap_loop fl (caps l)"
    "weights (wrr l) = map (\<lambda>c. go_int (fl (fl (c / totalCap l) * 100))) (caps l)"
    by (simp add: NewLoadBalancer_def Let_def)
  have n: "0 < length handlers"
    using ne by simp
  have bound: "real (length handlers) \<le> totalCap l \<and> 0 < totalCap l"
    if "mono fl \<and> (\<forall>n \<le> length handlers. fl (real n) = real n)"
  proof -
    from that l(2) have "mono fl" "\<forall>n \<le> length (caps l). fl (real n) = real n"
      by simp_all
    moreover from l(2) have "\<forall>c \<in> set (caps l). 1 \<le> c"
      by auto
    ultimately have "real (length (caps l)) \<le> totalCap_loop fl (caps l)"
      by (rule totalCap_loop_at_least)
    with l(2,3) have le: "real (length handlers) \<le> totalCap l"
      by simp
    from n have "0 < real (length handlers)"
      by simp
    with le show ?thesis
      by linarith
  qed
  from l n bound
  show "\<exists>l. NewLoadBalancer fl handlers = Inr l
            \<and> caps l = map (\<lambda>ds. max (EstCap ds) 1) handlers
            \<and> totalCap l = totalCap_loop fl (caps l)
            \<and> 0 < length handlers
            \<and> weights (wrr l) = map (\<lambda>c. go_int (fl (fl (c / totalCap l) * 100))) (caps l)
            \<and> (mono fl \<and> (\<forall>n \<le> length handlers. fl (real n) = real n) \<longrightarrow>
                 real (length handlers) \<le> totalCap l \<and> 0 < totalCap l)"
    by blast
qed

theorem NewLoadBalancer_panics_iff_empty_witness:
  "\<exists>l. NewLoadBalancer (\<lambda>x. x) [\<lparr>EstCap = 0, HDispatch = always_failing\<rparr>, \<lparr>EstCap = 3, HDispatch = always_exceeded\<rparr>] = Inr l
      \<and> caps l = [1, 3] \<and> totalCap l = 4 \<and> 2 \<le> totalCap l \<and> weights (wrr l) = [25, 75]"
proof -
  let ?hs = "[\<lparr>EstCap = 0, HDispatch = always_failing\<rparr>, \<lparr>EstCap = 3, HDispatch = always_exceeded\<rparr>]"
  have "?hs \<noteq> []"
    by simp
  with NewLoadBalancer_panics_iff_empty [of "\<lambda>x. x" ?hs]
  obtain l where l: "NewLoadBalancer (\<lambda>x. x) ?hs = Inr l" "caps l = map (\<lambda>ds. max (EstCap ds) 1) ?hs"
    "totalCap l = totalCap_loop (\<lambda>x. x) (caps l)"
    "weights (wrr l) = map (\<lambda>c. go_int (c / totalCap l * 100)) (caps l)"
    "mono (\<lambda>x :: real. x) \<and> (\<forall>n \<le> length ?hs. real n = real n) \<longrightarrow>
       real (length ?hs) \<le> totalCap l \<and> 0 < totalCap l"
    by blast
  have "mono (\<lambda>x :: real. x)"
    by (simp add: mono_def)
  with l(5) have b: "2 \<le> totalCap l"
    by simp
  from l(2) have c: "caps l = [1, 3]"
    by simp
  with l(3) have t: "totalCap l = 4"
    by (simp add: totalCap_loop_def)
  from l(4) c t have "weights (wrr l) = [25, 75]"
    by (simp add: go_int_def)
  with l(1) c t b show ?thesis
    by blast
qed

lemma rounds_within_near:
  assumes "rounds_within fl u lo hi" and "0 \<le> u" and "u \<le> 1"
    and "lo \<le> x" and "x \<le> hi" and "0 \<le> x"
  shows "(1 - u) * x \<le> fl x" and "(1 - u) * fl x \<le> x"
proof -
  from assms(1,4,5) have "\<bar>fl x - x\<bar> \<le> u * x"
    unfolding rounds_within_def by blast
  then have lower: "x - u * x \<le> fl x" and upper: "fl x \<le> x + u * x"
    by linarith+
  from lower show "(1 - u) * x \<le> fl x"
    by (simp add: algebra_simps)
  have "(1 - u) * fl x \<le> (1 - u) * (x + u * x)"
    using upper assms(3) by (intro mult_left_mono) simp_all
  also have "\<dots> = x - u * u * x"
    by (simp add: algebra_simps)
  also have "\<dots> \<le> x"
    using assms(2,6) by simp
  finally show "(1 - u) * fl x \<le> x" .
qed

lemma fold_round_near:
  assumes R: "rounds_within fl u lo hi" and u: "0 \<le> u" "u \<le> 1" and lo: "lo \<le> 1 / 10"
    and caps: "\<forall>c \<in> set cs. 1 / 10 \<le> c"
    and inv: "(1 - u) ^ k * s \<le> t" "(1 - u) ^ k * t \<le> s" "0 \<le> s" "0 \<le> t"
    and range: "\<And>x. 0 \<le> x \<Longrightarrow> (1 - u) ^ (k + length cs) * x \<le> s + sum_list cs \<Longrightarrow> x \<le> hi"
  shows "(1 - u) ^ (k + length cs) * (s + sum_list cs) \<le> fold (\<lambda>c t. fl (t + c)) cs t
         \<and> (1 - u) ^ (k + length cs) * fold (\<lambda>c t. fl (t + c)) cs t \<le> s + sum_list cs
         \<and> 0 \<le> fold (\<lambda>c t. fl (t + c)) cs t"
  using caps inv range
proof (induction cs arbitrary: k s t)
  case Nil
  then show ?case by simp
next
  case (Cons c cs)
  define D where "D = 1 - u"
  define P where "P = D ^ k"
  note prems = Cons.prems[folded D_def]
  from u have D: "0 \<le> D" "D \<le> 1"
    by (simp_all add: D_def)
  then have P: "0 \<le> P" "P \<le> 1"
    by (simp_all add: P_def power_le_one)
  from prems(1) have c: "1 / 10 \<le> c" and rest: "\<forall>c \<in> set cs. 1 / 10 \<le> c"
    by simp_all
  then have c0: "0 \<le> c"
    by simp
  have rest0: "0 \<le> sum_list cs"
  proof (rule sum_list_nonneg)
    fix x assume "x \<in> set cs"
    with rest have "1 / 10 \<le> x" by blast
    then show "0 \<le> x" by simp
  qed
  from prems(2,3) have Ps: "P * s \<le> t" and Pt: "P * t \<le> s"
    by (simp_all add: P_def)
  note s0 = prems(4) and t0 = prems(5)
  let ?x = "t + c"
  have x0: "0 \<le> ?x"
    using t0 c0 by simp
  have xlo: "lo \<le> ?x"
    using lo c t0 by simp
  have Pc: "P * c \<le> c"
    using P c0 by (simp add: mult_left_le_one_le)
  have A: "P * ?x \<le> s + c"
    using Pt Pc by (simp add: algebra_simps)
  have "D ^ (k + length (c # cs)) \<le> D ^ k"
    using D by (intro power_decreasing) simp_all
  then have "D ^ (k + length (c # cs)) * ?x \<le> P * ?x"
    unfolding P_def using x0 by (rule mult_right_mono)
  also note A
  also have "s + c \<le> s + sum_list (c # cs)"
    using rest0 by simp
  finally have "D ^ (k + length (c # cs)) * ?x \<le> s + sum_list (c # cs)" .
  from prems(6)[OF x0 this] have xhi: "?x \<le> hi" .
  from rounds_within_near[OF R u xlo xhi x0]
  have near: "D * ?x \<le> fl ?x" "D * fl ?x \<le> ?x"
    by (simp_all add: D_def)
  have f0: "0 \<le> fl ?x"
  proof -
    have "0 \<le> D * ?x" using D x0 by simp
    with near(1) show ?thesis by simp
  qed
  have B1: "D ^ Suc k * (s + c) \<le> fl ?x"
  proof -
    have "P * (s + c) \<le> ?x"
      using Ps Pc by (simp add: algebra_simps)
    then have "D * (P * (s + c)) \<le> D * ?x"
      using D by (intro mult_left_mono) simp_all
    with near(1) show ?thesis
      by (simp add: P_def mult.assoc)
  qed
  have B2: "D ^ Suc k * fl ?x \<le> s + c"
  proof -
    have "P * (D * fl ?x) \<le> P * ?x"
      using near(2) P by (intro mult_left_mono) simp_all
    with A show ?thesis
      by (simp add: P_def mult.assoc mult.left_commute)
  qed
  have sc0: "0 \<le> s + c"
    using s0 c0 by simp
  have range': "x \<le> hi" if "0 \<le> x" "D ^ (Suc k + length cs) * x \<le> (s + c) + sum_list cs" for x
    using prems(6)[OF that(1)] that(2) by (simp add: add.assoc)
  from Cons.IH[of "Suc k" "s + c" "fl ?x", folded D_def, OF rest B1 B2 sc0 f0 range']
  show ?case
    by (simp add: D_def add.assoc)
qed


lemma power_near_one:
  assumes "0 \<le> u" and "real n * u \<le> 1 / 1000" and "0 < n"
  shows "999 / 1000 \<le> (1 - u) ^ n" and "(1 - u) ^ n \<le> 1" and "0 \<le> 1 - u" and "1 - u \<le> 1"
proof -
  have u1: "u \<le> 1"
  proof (cases n)
    case 0
    with assms(3) show ?thesis by simp
  next
    case (Suc m)
    then have "1 \<le> real n" by simp
    with assms(1) have "u \<le> real n * u"
      by (simp add: mult_le_cancel_right1)
    with assms(2) show ?thesis by simp
  qed
  then show "0 \<le> 1 - u" by simp
  from assms(1) show "1 - u \<le> 1" by simp
  from u1 have "1 + real n * (- u) \<le> (1 + (- u)) ^ n"
    by (intro Bernoulli_inequality) simp
  with assms(2) show "999 / 1000 \<le> (1 - u) ^ n"
    by simp
  from assms(1) u1 show "(1 - u) ^ n \<le> 1"
    by (intro power_le_one) simp_all
qed

lemma share_near:
  fixes S T c u lo hi :: real
  assumes R: "rounds_within fl u lo hi" and u: "0 \<le> u" "u \<le> 1"
    and E: "999 / 1000 \<le> E" "E \<le> 1" and D: "999 / 1000 \<le> 1 - u"
    and ES: "E * S \<le> T" and ET: "E * T \<le> S" and S: "0 < S"
    and c: "1 / 10 \<le> c" "c \<le> S"
    and lo: "0 < lo" "lo * S \<le> 1 / 20" and hi: "200 \<le> hi"
  shows "E * (1 - u) * (1 - u) * (c / S * 100) \<le> fl (fl (c / T) * 100)"
    and "E * (1 - u) * (1 - u) * fl (fl (c / T) * 100) \<le> c / S * 100"
    and "0 \<le> fl (fl (c / T) * 100)"
proof -
  define D where "D = 1 - u"
  have D0: "0 \<le> D" "D \<le> 1" "999 / 1000 \<le> D"
    using u D by (simp_all add: D_def)
  have E0: "0 \<le> E"
    using E by simp
  have T: "0 < T"
  proof -
    have "999 / 1000 * S \<le> E * S"
      using E(1) S by (intro mult_right_mono) simp_all
    with ES S show ?thesis by linarith
  qed
  have c0: "0 < c"
    using c by simp
  define e where "e = c / S"
  define y where "y = c / T"
  have e: "e * S = c" and y: "y * T = c"
    using S T by (simp_all add: e_def y_def)
  have e0: "0 \<le> e" and y0: "0 \<le> y"
    using c0 S T by (simp_all add: e_def y_def)
  have e1: "e \<le> 1"
    using c(2) S by (simp add: e_def)
  have Ee_y: "E * e \<le> y"
  proof -
    have "(E * e) * T = e * (E * T)"
      by simp
    also have "\<dots> \<le> e * S"
      using ET e0 by (intro mult_left_mono)
    also have "\<dots> = y * T"
      using e y by simp
    finally show ?thesis
      using T by simp
  qed
  have Ey_e: "E * y \<le> e"
  proof -
    have "(E * y) * S = y * (E * S)"
      by simp
    also have "\<dots> \<le> y * T"
      using ES y0 by (intro mult_left_mono)
    also have "\<dots> = e * S"
      using e y by simp
    finally show ?thesis
      using S by simp
  qed
  have ylo: "lo \<le> y"
  proof -
    have "lo * S \<le> 999 / 1000 * (1 / 10)"
      using lo(2) by simp
    also have "\<dots> \<le> E * c"
      using E(1) c(1) E0 by (intro mult_mono) simp_all
    also have "\<dots> = (E * e) * S"
      using e by simp
    finally have "lo \<le> E * e"
      using S by simp
    with Ee_y show ?thesis by simp
  qed
  have y_small: "y \<le> 101 / 100"
  proof -
    have "999 / 1000 * y \<le> E * y"
      using E(1) y0 by (intro mult_right_mono)
    with Ey_e e1 show ?thesis by linarith
  qed
  with hi have yhi: "y \<le> hi"
    by simp
  from rounds_within_near[OF R u ylo yhi y0]
  have fy: "D * y \<le> fl y" "D * fl y \<le> y"
    by (simp_all add: D_def)
  define z where "z = fl y * 100"
  have Dy: "999 / 1000 * y \<le> D * y"
    using D0(3) y0 by (intro mult_right_mono)
  have fy0: "0 \<le> fl y"
    using fy(1) Dy y0 by linarith
  have z0: "0 \<le> z"
    using fy0 by (simp add: z_def)
  have zlo: "lo \<le> z"
    using fy(1) Dy ylo y0 by (simp add: z_def)
  have "999 / 1000 * fl y \<le> D * fl y"
    using D0(3) fy0 by (intro mult_right_mono)
  with fy(2) y_small have "fl y \<le> 102 / 100"
    by linarith
  then have zhi: "z \<le> hi"
    using hi by (simp add: z_def)
  from rounds_within_near[OF R u zlo zhi z0]
  have fz: "D * z \<le> fl z" "D * fl z \<le> z"
    by (simp_all add: D_def)
  have fz0: "0 \<le> fl z"
  proof -
    have "0 \<le> D * z" using D0(1) z0 by simp
    with fz(1) show ?thesis by simp
  qed
  have lower: "E * D * D * (e * 100) \<le> fl z"
  proof -
    have "E * D * D * (e * 100) = D * (D * (E * e)) * 100"
      by simp
    also have "\<dots> \<le> D * (D * y) * 100"
      using Ee_y D0(1) by (intro mult_right_mono mult_left_mono) simp_all
    also have "\<dots> \<le> D * fl y * 100"
      using fy(1) D0(1) by (intro mult_right_mono mult_left_mono) simp_all
    also have "\<dots> = D * z"
      by (simp add: z_def)
    also note fz(1)
    finally show ?thesis .
  qed
  have upper: "E * D * D * fl z \<le> e * 100"
  proof -
    have "E * D * D * fl z = E * (D * (D * fl z))"
      by simp
    also have "\<dots> \<le> E * (D * z)"
      using fz(2) D0(1) E0 by (intro mult_left_mono) simp_all
    also have "\<dots> = E * (D * fl y) * 100"
      by (simp add: z_def)
    also have "\<dots> \<le> E * y * 100"
      using fy(2) E0 by (intro mult_right_mono mult_left_mono) simp_all
    also have "\<dots> \<le> e * 100"
      using Ey_e by simp
    finally show ?thesis .
  qed
  from lower show "E * (1 - u) * (1 - u) * (c / S * 100) \<le> fl (fl (c / T) * 100)"
    by (simp add: D_def e_def z_def y_def)
  from upper show "E * (1 - u) * (1 - u) * fl (fl (c / T) * 100) \<le> c / S * 100"
    by (simp add: D_def e_def z_def y_def)
  from fz0 show "0 \<le> fl (fl (c / T) * 100)"
    by (simp add: z_def y_def)
qed

lemma floor_sum_upper: "real_of_int (sum_list (map floor xs)) \<le> sum_list (xs :: real list)"
proof (induction xs)
  case Nil
  show ?case by simp
next
  case (Cons x xs)
  have "real_of_int \<lfloor>x\<rfloor> \<le> x"
    by simp
  with Cons show ?case
    unfolding list.map sum_list.Cons of_int_add by linarith
qed

lemma floor_sum_lower:
  "xs \<noteq> [] \<Longrightarrow> sum_list (xs :: real list) - real (length xs) < real_of_int (sum_list (map floor xs))"
proof (induction xs)
  case Nil
  then show ?case by simp
next
  case (Cons x xs)
  have x: "x - 1 < real_of_int \<lfloor>x\<rfloor>"
    by linarith
  show ?case
  proof (cases "xs = []")
    case True
    with x show ?thesis by simp
  next
    case False
    with Cons.IH have "sum_list xs - real (length xs) < real_of_int (sum_list (map floor xs))"
      by simp
    with x show ?thesis
      unfolding list.map sum_list.Cons of_int_add length_Cons of_nat_Suc by linarith
  qed
qed

lemma sum_list_share: "sum_list (map (\<lambda>c. c / t * 100) cs) = sum_list cs / t * (100 :: real)"
  by (induction cs) (simp_all add: add_divide_distrib distrib_right)

lemma caps_total_positive:
  assumes "cs \<noteq> []" and "\<forall>c \<in> set cs. (0.1 :: real) \<le> c"
  shows "0 < sum_list cs"
proof -
  from assms(1) obtain c cs' where cs: "cs = c # cs'"
    by (cases cs) auto
  with assms(2) have "0.1 \<le> c" and "\<And>x. x \<in> set cs' \<Longrightarrow> 0 \<le> x"
    by fastforce+
  then have "0 < c" and "0 \<le> sum_list cs'"
    by (simp_all add: sum_list_nonneg)
  with cs show ?thesis
    by simp
qed

lemma cap_le_total:
  assumes "c \<in> set cs" and "\<forall>c \<in> set cs. (0.1 :: real) \<le> c"
  shows "c \<le> sum_list cs"
proof (rule member_le_sum_list[OF assms(1)])
  fix x assume "x \<in> set cs"
  with assms(2) have "0.1 \<le> x" by blast
  then show "0 \<le> x" by simp
qed

lemma floor_near:
  fixes x e :: real
  assumes "\<bar>x - e\<bar> < 1"
  shows "\<bar>\<lfloor>x\<rfloor> - \<lfloor>e\<rfloor>\<bar> \<le> 1"
  using assms by linarith

lemma rounded_shares:
  assumes ne: "cs \<noteq> []" and caps: "\<forall>c \<in> set cs. 0.1 \<le> c"
    and R: "rounds_within fl u lo hi" and u: "0 \<le> u"
    and N: "(real (length cs) + 2) * u \<le> 1 / 1000"
    and lo: "0 < lo" "lo \<le> 1 / 10" "lo * sum_list cs \<le> 1 / 20"
    and hi: "2 * sum_list cs \<le> hi" "200 \<le> hi"
    and c: "c \<in> set cs"
  shows "999 / 1000 * (c / sum_list cs * 100) \<le> fl (fl (c / totalCap_loop fl cs) * 100)"
    and "999 / 1000 * fl (fl (c / totalCap_loop fl cs) * 100) \<le> c / sum_list cs * 100"
    and "0 \<le> fl (fl (c / totalCap_loop fl cs) * 100)"
proof -
  define S where "S = sum_list cs"
  define T where "T = totalCap_loop fl cs"
  define D where "D = 1 - u"
  define E where "E = D ^ length cs"
  have S: "0 < S"
    using caps_total_positive[OF ne caps] by (simp add: S_def)
  have "real (length cs + 2) = real (length cs) + 2"
    by simp
  with N have "real (length cs + 2) * u \<le> 1 / 1000"
    by (simp only:)
  from power_near_one[OF u this]
  have q: "999 / 1000 \<le> D ^ (length cs + 2)" and D: "0 \<le> D" "D \<le> 1"
    by (simp_all add: D_def)
  have a: "D ^ (length cs + 2) \<le> D ^ length cs"
    using D by (intro power_decreasing) simp_all
  have b: "D ^ (length cs + 2) \<le> D ^ 1"
    using D by (intro power_decreasing) simp_all
  have E: "999 / 1000 \<le> E"
    unfolding E_def using q a by linarith
  have D999: "999 / 1000 \<le> D"
    using q b unfolding power_one_right by linarith
  from D have E1: "E \<le> 1"
    by (simp add: E_def power_le_one)
  have u1: "u \<le> 1"
    using D(1) by (simp add: D_def)
  have caps': "\<forall>c \<in> set cs. 1 / 10 \<le> c"
    using caps by simp
  have range: "x \<le> hi" if "0 \<le> x" "(1 - u) ^ (0 + length cs) * x \<le> 0 + sum_list cs" for x
  proof -
    have "999 / 1000 * x \<le> E * x"
      using E that(1) by (intro mult_right_mono)
    with that(2) have "999 / 1000 * x \<le> S"
      by (simp add: E_def D_def S_def)
    with hi(1) S show ?thesis
      by (simp add: S_def)
  qed
  from fold_round_near[OF R u u1 lo(2) caps', of 0 0 0, OF _ _ _ _ range]
  have ES: "E * S \<le> T" and ET: "E * T \<le> S"
    by (simp_all add: E_def D_def S_def T_def totalCap_loop_def)
  from c caps have c1: "1 / 10 \<le> c" "c \<le> S"
    using cap_le_total[OF c caps] by (auto simp: S_def)
  have D999': "999 / 1000 \<le> 1 - u"
    using D999 by (simp add: D_def)
  note near = share_near[OF R u u1 E E1 D999' ES ET S c1 lo(1) _ hi(2)]
  have loS: "lo * S \<le> 1 / 20"
    using lo(3) by (simp add: S_def)
  define e where "e = c / S * 100"
  define x where "x = fl (fl (c / T) * 100)"
  have e0: "0 \<le> e"
    using c1 S by (simp add: e_def)
  from near[OF loS] have qe: "E * D * D * e \<le> x" and qx: "E * D * D * x \<le> e" and x0: "0 \<le> x"
    by (simp_all add: e_def x_def D_def)
  have "D ^ (length cs + 2) = E * D * D"
    by (simp add: E_def power_add power2_eq_square)
  with q have qq: "999 / 1000 \<le> E * D * D"
    by (simp only:)
  have "999 / 1000 * e \<le> E * D * D * e" "999 / 1000 * x \<le> E * D * D * x"
    using qq e0 x0 by (intro mult_right_mono; simp)+
  with qe qx have "999 / 1000 * e \<le> x" "999 / 1000 * x \<le> e"
    by linarith+
  with x0 show "999 / 1000 * (c / sum_list cs * 100) \<le> fl (fl (c / totalCap_loop fl cs) * 100)"
    and "999 / 1000 * fl (fl (c / totalCap_loop fl cs) * 100) \<le> c / sum_list cs * 100"
    and "0 \<le> fl (fl (c / totalCap_loop fl cs) * 100)"
    by (simp_all add: e_def x_def S_def T_def)
qed

lemma share_bounds:
  assumes "c \<in> set cs" and "\<forall>c \<in> set cs. (0.1 :: real) \<le> c"
  shows "0 \<le> c / sum_list cs * 100" and "c / sum_list cs * 100 \<le> 100"
proof -
  from assms have pos: "0 < sum_list cs"
    by (intro caps_total_positive) auto
  from assms have c: "0 \<le> c" "c \<le> sum_list cs"
    using cap_le_total[OF assms] by fastforce+
  from c(1) pos show "0 \<le> c / sum_list cs * 100"
    by simp
  from c(2) pos have "c / sum_list cs \<le> 1"
    by simp
  then have "c / sum_list cs * 100 \<le> 1 * 100"
    by (rule mult_right_mono) simp
  then show "c / sum_list cs * 100 \<le> 100"
    by simp
qed

text \<open>
  Claim C3, as the code has it. Of the rounding \<open>fl\<close> the theorem uses that it is off by
  a relative error \<open>u\<close> at most between \<open>lo\<close> and \<open>hi\<close>, that \<open>(N + 2) * u\<close> is at most
  \<open>1 / 1000\<close>, and that the sum of the capacities is far from both ends of the range;
  \<open>float64\<close> meets this with \<open>u = 2^-53\<close>, \<open>lo = 2^-1022\<close> and \<open>hi = 2^1023\<close> for every
  \<open>N\<close> up to \<open>9 * 10^12\<close> and every sum up to \<open>2^1017\<close>.

  After \<open>updateWeights\<close> on a non-empty capacity vector with every capacity at least 0.1,
  \<open>totalCap\<close> is the sum of the capacities as the loop of additions computes it, every
  weight is the integer part of \<open>cap / totalCap * 100\<close> as \<open>float64\<close> computes it, which
  is \<open>\<lfloor>cap / \<Sum> cap * 100\<rfloor>\<close> of exact arithmetic or differs from it by 1, every weight lies
  in \<open>[0, 100]\<close>, and the sum of the weights is at least \<open>100 - N\<close> and at most 100.
\<close>

theorem updateWeights_weights:
  assumes "length (caps l) = length (dispatch l)" and "caps l \<noteq> []"
    and "\<forall>c \<in> set (caps l). 0.1 \<le> c"
    and "rounds_within fl u lo hi" and "0 \<le> u"
    and "(real (length (caps l)) + 2) * u \<le> 1 / 1000"
    and "0 < lo" and "lo \<le> 1 / 10" and "lo * sum_list (caps l) \<le> 1 / 20"
    and "2 * sum_list (caps l) \<le> hi" and "200 \<le> hi"
  shows "\<exists>l'. updateWeights fl l = Inr l' \<and> caps l' = caps l
           \<and> totalCap l' = totalCap_loop fl (caps l)
           \<and> weights (wrr l') = map (\<lambda>c. \<lfloor>fl (fl (c / totalCap l') * 100)\<rfloor>) (caps l)
           \<and> (\<forall>i<length (caps l).
                 \<bar>weights (wrr l') ! i - \<lfloor>caps l ! i / sum_list (caps l) * 100\<rfloor>\<bar> \<le> 1)
           \<and> rounds (wrr l') = Max (set (weights (wrr l')))
           \<and> (\<forall>w \<in> set (weights (wrr l')). 0 \<le> w \<and> w \<le> 100)
           \<and> 100 - int (length (caps l)) \<le> sum_list (weights (wrr l'))
           \<and> sum_list (weights (wrr l')) \<le> 100"
proof -
  define cs where "cs = caps l"
  define T where "T = totalCap_loop fl cs"
  define x where "x = (\<lambda>c. fl (fl (c / T) * 100))"
  define e where "e = (\<lambda>c. c / sum_list cs * 100)"
  note hyps = assms(2-)[folded cs_def]
  have near: "999 / 1000 * e c \<le> x c" "999 / 1000 * x c \<le> e c" "0 \<le> x c" if "c \<in> set cs" for c
    using rounded_shares[OF hyps(1-10) that] by (simp_all add: e_def x_def T_def)
  have eb: "0 \<le> e c" "e c \<le> 100" if "c \<in> set cs" for c
    using share_bounds[OF that hyps(2)] by (simp_all add: e_def)
  have close: "\<bar>x c - e c\<bar> < 1" if "c \<in> set cs" for c
    using near[OF that] eb[OF that] by linarith
  let ?ws = "map (\<lambda>c. \<lfloor>x c\<rfloor>) cs"
  have trunc: "map (\<lambda>c. go_int (fl (fl (c / totalCap_loop fl (caps l)) * 100))) (caps l) = ?ws"
    using near(3) by (simp add: go_int_def x_def T_def cs_def)
  let ?l' = "l\<lparr>totalCap := T, wrr := (wrr l)\<lparr>weights := ?ws, rounds := Max (set ?ws)\<rparr>\<rparr>"
  have res: "updateWeights fl l = Inr ?l'"
    using updateWeights_result[OF assms(1,2), of fl] trunc by (simp add: T_def cs_def)
  have range: "\<forall>w \<in> set ?ws. 0 \<le> w \<and> w \<le> 100"
  proof
    fix w assume "w \<in> set ?ws"
    then obtain c where c: "c \<in> set cs" "w = \<lfloor>x c\<rfloor>"
      by auto
    from near[OF c(1)] eb[OF c(1)] have "0 \<le> x c" "x c < 101"
      by linarith+
    with c(2) show "0 \<le> w \<and> w \<le> 100"
      by (simp add: floor_le_iff)
  qed
  have each: "\<forall>i<length cs. \<bar>?ws ! i - \<lfloor>cs ! i / sum_list cs * 100\<rfloor>\<bar> \<le> 1"
  proof (intro allI impI)
    fix i assume i: "i < length cs"
    then have "cs ! i \<in> set cs"
      by simp
    from floor_near[OF close[OF this]] i
    show "\<bar>?ws ! i - \<lfloor>cs ! i / sum_list cs * 100\<rfloor>\<bar> \<le> 1"
      by (simp add: e_def)
  qed
  have pos: "0 < sum_list cs"
    using caps_total_positive[OF hyps(1,2)] .
  have total: "sum_list (map e cs) = 100"
    unfolding e_def sum_list_share using pos by simp
  have "sum_list (map (\<lambda>c. 999 / 1000 * e c) cs) \<le> sum_list (map x cs)"
    using near(1) by (intro sum_list_mono)
  then have low: "999 / 1000 * sum_list (map e cs) \<le> sum_list (map x cs)"
    by (simp only: sum_list_const_mult)
  have "sum_list (map (\<lambda>c. 999 / 1000 * x c) cs) \<le> sum_list (map e cs)"
    using near(2) by (intro sum_list_mono)
  then have high: "999 / 1000 * sum_list (map x cs) \<le> sum_list (map e cs)"
    by (simp only: sum_list_const_mult)
  have ws: "?ws = map floor (map x cs)"
    by simp
  have "real_of_int (sum_list ?ws) \<le> sum_list (map x cs)"
    unfolding ws by (rule floor_sum_upper)
  with high total have "real_of_int (sum_list ?ws) < 101"
    by linarith
  then have upper: "sum_list ?ws \<le> 100"
    by linarith
  have "map x cs \<noteq> []"
    using hyps(1) by simp
  from floor_sum_lower[OF this]
  have "sum_list (map x cs) - real (length cs) < real_of_int (sum_list ?ws)"
    unfolding ws by simp
  with low total have "99 - real (length cs) < real_of_int (sum_list ?ws)"
    by linarith
  then have lower: "100 - int (length cs) \<le> sum_list ?ws"
    by linarith
  have "caps ?l' = caps l" "totalCap ?l' = totalCap_loop fl (caps l)"
    "weights (wrr ?l') = map (\<lambda>c. \<lfloor>fl (fl (c / totalCap ?l') * 100)\<rfloor>) (caps l)"
    "rounds (wrr ?l') = Max (set (weights (wrr ?l')))"
    by (simp_all add: T_def cs_def x_def)
  moreover from each have "\<forall>i<length (caps l).
      \<bar>weights (wrr ?l') ! i - \<lfloor>caps l ! i / sum_list (caps l) * 100\<rfloor>\<bar> \<le> 1"
    by (simp add: cs_def)
  moreover from range have "\<forall>w \<in> set (weights (wrr ?l')). 0 \<le> w \<and> w \<le> 100"
    by simp
  moreover from lower upper have "100 - int (length (caps l)) \<le> sum_list (weights (wrr ?l'))"
    "sum_list (weights (wrr ?l')) \<le> 100"
    by (simp_all add: cs_def)
  ultimately show ?thesis
    using res by blast
qed

lemma float64_sample_rounds: "rounds_within float64_sample (1 / 2 ^ 53) (1 / 2 ^ 1022) (2 ^ 1023)"
  unfolding rounds_within_def
proof (intro allI impI)
  fix x :: real
  assume "1 / 2 ^ 1022 \<le> x \<and> x \<le> 2 ^ 1023"
  then have "0 \<le> x"
    by (meson divide_nonneg_pos order_trans zero_le_one zero_less_numeral zero_less_power)
  then have other: "\<bar>x - x\<bar> \<le> 1 / 2 ^ 53 * x"
    by simp
  have table: "\<forall>(a, b) \<in> set float64_table. \<bar>b - a\<bar> \<le> 1 / 2 ^ 53 * a"
    by (simp add: float64_table_def)
  show "\<bar>float64_sample x - x\<bar> \<le> 1 / 2 ^ 53 * x"
  proof (cases "map_of float64_table x")
    case None
    with other show ?thesis
      by (simp add: float64_sample_def)
  next
    case (Some y)
    then have "(x, y) \<in> set float64_table"
      by (rule map_of_SomeD)
    with table have "\<bar>y - x\<bar> \<le> 1 / 2 ^ 53 * x"
      by blast
    with Some show ?thesis
      by (simp add: float64_sample_def)
  qed
qed

text \<open>
  For the capacities 1.08 and 1.32 the rounded sum is above the exact one, both rounded
  shares times 100 fall just below 45 and 55, and the weights are 44 and 54: their sum
  is \<open>100 - N\<close>, so the lower bound of the theorem is attained.
\<close>

theorem updateWeights_weights_witness:
  "\<exists>l'. updateWeights float64_sample decimal_hint_balancer = Inr l'
      \<and> totalCap l' = 1351079888211149 / 2 ^ 49 \<and> weights (wrr l') = [44, 54]
      \<and> sum_list (weights (wrr l')) = 100 - 2"
proof -
  let ?l = "decimal_hint_balancer"
  have c: "caps ?l = [607985949695017 / 2 ^ 49, 5944751508129055 / 2 ^ 52]"
    by (simp add: decimal_hint_balancer_def cap_1_08_def cap_1_32_def)
  have "length (caps ?l) = length (dispatch ?l)" "caps ?l \<noteq> []" "\<forall>c \<in> set (caps ?l). 0.1 \<le> c"
    "(0::real) \<le> 1 / 2 ^ 53" "(real (length (caps ?l)) + 2) * (1 / 2 ^ 53) \<le> 1 / 1000"
    "(0::real) < 1 / 2 ^ 1022" "(1::real) / 2 ^ 1022 \<le> 1 / 10"
    "1 / 2 ^ 1022 * sum_list (caps ?l) \<le> 1 / 20" "2 * sum_list (caps ?l) \<le> 2 ^ 1023"
    "(200::real) \<le> 2 ^ 1023"
    by (simp_all add: decimal_hint_balancer_def cap_1_08_def cap_1_32_def)
  from updateWeights_weights [OF this(1-3) float64_sample_rounds this(4-)]
  obtain l' where l': "updateWeights float64_sample ?l = Inr l'"
    "totalCap l' = totalCap_loop float64_sample (caps ?l)"
    "weights (wrr l') = map (\<lambda>c. \<lfloor>float64_sample (float64_sample (c / totalCap l') * 100)\<rfloor>) (caps ?l)"
    by blast
  from l'(2) c have t: "totalCap l' = 1351079888211149 / 2 ^ 49"
    by (simp add: totalCap_loop_def float64_sample_def float64_table_def)
  with l'(3) c have w: "weights (wrr l') = [44, 54]"
    by (simp add: float64_sample_def float64_table_def)
  then have "sum_list (weights (wrr l')) = 100 - 2"
    by simp
  with l'(1) t w show ?thesis
    by blast
qed

text \<open>
  Claim C3 as stated fails in both of its parts. Seven handlers of capacity 1 get the
  weight 14 each, which sums to 98, below the 99 of the claim. And for the capacities 29
  and 71 \<open>float64\<close> rounds \<open>29 / 100\<close> to a value below 0.29 and its product with 100
  to a value below 29, so the first weight is 28, although \<open>\<lfloor>29 / 100 * 100\<rfloor>\<close> is 29.
\<close>

theorem updateWeights_sum_counterexample:
  "updateWeights float64_sample seven_handler_balancer
     = Inr (seven_handler_balancer
              \<lparr>totalCap := 7,
               wrr := \<lparr>weights = [14, 14, 14, 14, 14, 14, 14], rounds = 14,
                       currIndex = 0, currRound = 0\<rparr>\<rparr>)
   \<and> sum_list [14, 14, 14, 14, 14, 14, 14 :: int] < 99
   \<and> updateWeights float64_sample two_hint_balancer
     = Inr (two_hint_balancer
              \<lparr>totalCap := 100,
               wrr := \<lparr>weights = [28, 71], rounds = 71, currIndex = 0, currRound = 0\<rparr>\<rparr>)
   \<and> \<lfloor>29 / 100 * 100 :: real\<rfloor> = 29"
proof (intro conjI)
  have "length (caps seven_handler_balancer) = length (dispatch seven_handler_balancer)"
    "caps seven_handler_balancer \<noteq> []"
    by (simp_all add: seven_handler_balancer_def)
  from updateWeights_result[OF this, of float64_sample]
  show "updateWeights float64_sample seven_handler_balancer
     = Inr (seven_handler_balancer
              \<lparr>totalCap := 7,
               wrr := \<lparr>weights = [14, 14, 14, 14, 14, 14, 14], rounds = 14,
                       currIndex = 0, currRound = 0\<rparr>\<rparr>)"
    by (simp add: seven_handler_balancer_def go_int_def NewWeightedRoundRobin_def
        totalCap_loop_def float64_sample_def float64_table_def)
  show "sum_list [14, 14, 14, 14, 14, 14, 14 :: int] < 99"
    by simp
  have "length (caps two_hint_balancer) = length (dispatch two_hint_balancer)"
    "caps two_hint_balancer \<noteq> []"
    by (simp_all add: two_hint_balancer_def)
  from updateWeights_result[OF this, of float64_sample]
  show "updateWeights float64_sample two_hint_balancer
     = Inr (two_hint_balancer
              \<lparr>totalCap := 100,
               wrr := \<lparr>weights = [28, 71], rounds = 71, currIndex = 0, currRound = 0\<rparr>\<rparr>)"
    by (simp add: two_hint_balancer_def go_int_def NewWeightedRoundRobin_def
        totalCap_loop_def float64_sample_def float64_table_def)
  show "\<lfloor>29 / 100 * 100 :: real\<rfloor> = 29"
    by simp
qed

subsection \<open>The estimator tick\<close>

lemma sint_eq_0_iff_word: "sint (w :: 'a::len word) = 0 \<longleftrightarrow> w = 0"
  by (simp add: signed_eq_0_iff)

lemma updateLoads_body_result:
  assumes "i < length (rejections l)" and "i < length (caps l)"
  shows "updateLoads_body i l
           = Inr (l\<lparr>caps := (caps l)[i := spec_capacity_update (config l) (sint (calls l ! i))
                                           (sint (rejections l ! i)) (caps l ! i)],
                    calls := (calls l)[i := 0],
                    rejections := (rejections l)[i := 0]\<rparr>)"
  using assms
  by (simp add: updateLoads_body_def spec_capacity_update_def Let_def word_sless_alt
      sint_eq_0_iff_word)

lemma updateLoads_loop_result:
  assumes "length (calls l) = n" and "length (rejections l) = n" and "length (caps l) = n"
    and "\<forall>i \<in> set js. i < n" and "distinct js"
  shows "\<exists>l'. updateLoads_loop js l = Inr l'
           \<and> config l' = config l \<and> wrr l' = wrr l \<and> dispatch l' = dispatch l
           \<and> totalCap l' = totalCap l
           \<and> length (calls l') = n \<and> length (rejections l') = n \<and> length (caps l') = n
           \<and> (\<forall>j<n. caps l' ! j = (if j \<in> set js
                                   then spec_capacity_update (config l) (sint (calls l ! j))
                                          (sint (rejections l ! j)) (caps l ! j)
                                   else caps l ! j)
                    \<and> calls l' ! j = (if j \<in> set js then 0 else calls l ! j)
                    \<and> rejections l' ! j = (if j \<in> set js then 0 else rejections l ! j))"
  using assms
proof (induction js arbitrary: l)
  case Nil
  then show ?case by simp
next
  case (Cons i js)
  let ?l1 = "l\<lparr>caps := (caps l)[i := spec_capacity_update (config l) (sint (calls l ! i))
                                           (sint (rejections l ! i)) (caps l ! i)],
               calls := (calls l)[i := 0],
               rejections := (rejections l)[i := 0]\<rparr>"
  from Cons.prems have i: "i < n" "i \<notin> set js" "\<forall>i \<in> set js. i < n" "distinct js"
    by simp_all
  have body: "updateLoads_body i l = Inr ?l1"
    using i(1) Cons.prems(2,3) by (intro updateLoads_body_result) simp_all
  have "length (calls ?l1) = n" "length (rejections ?l1) = n" "length (caps ?l1) = n"
    using Cons.prems(1-3) by simp_all
  from Cons.IH[OF this i(3,4)]
  obtain l' where l': "updateLoads_loop js ?l1 = Inr l'"
    "config l' = config ?l1" "wrr l' = wrr ?l1" "dispatch l' = dispatch ?l1"
    "totalCap l' = totalCap ?l1"
    "length (calls l') = n" "length (rejections l') = n" "length (caps l') = n"
    "\<forall>j<n. caps l' ! j = (if j \<in> set js
                                   then spec_capacity_update (config ?l1) (sint (calls ?l1 ! j))
                                          (sint (rejections ?l1 ! j)) (caps ?l1 ! j)
                                   else caps ?l1 ! j)
                    \<and> calls l' ! j = (if j \<in> set js then 0 else calls ?l1 ! j)
                    \<and> rejections l' ! j = (if j \<in> set js then 0 else rejections ?l1 ! j)"
    by blast
  have each: "\<forall>j<n. caps l' ! j = (if j \<in> set (i # js)
                                   then spec_capacity_update (config l) (sint (calls l ! j))
                                          (sint (rejections l ! j)) (caps l ! j)
                                   else caps l ! j)
                    \<and> calls l' ! j = (if j \<in> set (i # js) then 0 else calls l ! j)
                    \<and> rejections l' ! j = (if j \<in> set (i # js) then 0 else rejections l ! j)"
  proof (intro allI impI)
    fix j assume j: "j < n"
    show "caps l' ! j = (if j \<in> set (i # js)
                                   then spec_capacity_update (config l) (sint (calls l ! j))
                                          (sint (rejections l ! j)) (caps l ! j)
                                   else caps l ! j)
                    \<and> calls l' ! j = (if j \<in> set (i # js) then 0 else calls l ! j)
                    \<and> rejections l' ! j = (if j \<in> set (i # js) then 0 else rejections l ! j)"
    proof (cases "j = i")
      case True
      with l'(9) j i(2) Cons.prems(1-3) show ?thesis by simp
    next
      case False
      with l'(9) j show ?thesis by simp
    qed
  qed
  have "updateLoads_loop (i # js) l = Inr l'"
    using body l'(1) by simp
  with l'(2-8) each show ?case
    by simp
qed

lemma updateLoads_result:
  assumes "well_formed l"
  shows "\<exists>l1. updateLoads l = Inr l1
           \<and> config l1 = config l \<and> wrr l1 = wrr l \<and> dispatch l1 = dispatch l
           \<and> length (calls l1) = length (dispatch l) \<and> length (rejections l1) = length (dispatch l)
           \<and> length (caps l1) = length (dispatch l)
           \<and> (\<forall>j<length (dispatch l).
                 caps l1 ! j = spec_capacity_update (config l) (sint (calls l ! j))
                                 (sint (rejections l ! j)) (caps l ! j)
                 \<and> calls l1 ! j = 0 \<and> rejections l1 ! j = 0)"
proof -
  let ?n = "length (dispatch l)"
  from assms have len: "length (calls l) = ?n" "length (rejections l) = ?n" "length (caps l) = ?n"
    by (simp_all add: well_formed_def)
  have "\<forall>i \<in> set [0 ..< ?n]. i < ?n" "distinct [0 ..< ?n]"
    by simp_all
  from updateLoads_loop_result[OF len this] len(1) show ?thesis
    by (auto simp: updateLoads_def)
qed


lemma spec_capacity_update_floor: "0.1 \<le> spec_capacity_update cfg c r cap"
  by (simp add: spec_capacity_update_def Let_def)

lemma tick_result:
  assumes "well_formed l" and "0 < sint (UpdateInterval (config l))"
  shows "\<exists>l'. tick fl l = Inr l' \<and> well_formed l' \<and> config l' = config l
           \<and> dispatch l' = dispatch l
           \<and> length (caps l') = length (dispatch l)
           \<and> (\<forall>j<length (dispatch l).
                 caps l' ! j = spec_capacity_update (config l) (sint (calls l ! j))
                                 (sint (rejections l ! j)) (caps l ! j)
                 \<and> calls l' ! j = 0 \<and> rejections l' ! j = 0)"
proof -
  from updateLoads_result[OF assms(1)]
  obtain l1 where l1: "updateLoads l = Inr l1" "config l1 = config l" "dispatch l1 = dispatch l"
    "length (calls l1) = length (dispatch l)" "length (rejections l1) = length (dispatch l)"
    "length (caps l1) = length (dispatch l)"
    "\<forall>j<length (dispatch l).
        caps l1 ! j = spec_capacity_update (config l) (sint (calls l ! j))
                        (sint (rejections l ! j)) (caps l ! j)
        \<and> calls l1 ! j = 0 \<and> rejections l1 ! j = 0"
    by blast
  from assms(1) have ne: "dispatch l \<noteq> []"
    by (simp add: well_formed_def)
  with l1(3,6) have "length (caps l1) = length (dispatch l1)" "caps l1 \<noteq> []"
    by auto
  from updateWeights_result[OF this, of fl]
  obtain l' where l': "updateWeights fl l1 = Inr l'" "config l' = config l1" "dispatch l' = dispatch l1"
    "calls l' = calls l1" "rejections l' = rejections l1" "caps l' = caps l1"
    by simp
  have "tick fl l = Inr l'"
    using assms(2) l1(1) l'(1) by (simp add: tick_def)
  moreover have "well_formed l'"
    using l' l1(3-6) ne by (simp add: well_formed_def)
  ultimately show ?thesis
    using l' l1 by auto
qed

lemma NewLoadBalancer_well_formed:
  assumes "NewLoadBalancer fl handlers = Inr l"
  shows "well_formed l"
proof (cases "handlers = []")
  case True
  with assms show ?thesis
    by (simp add: NewLoadBalancer_def updateWeights_empty)
next
  case False
  let ?l0 = "\<lparr>config = defaultConfig,
         wrr = NewWeightedRoundRobin (replicate (length handlers) 0),
         dispatch = map HDispatch handlers,
         calls = replicate (length handlers) 0,
         rejections = replicate (length handlers) 0,
         caps = map (\<lambda>ds. max (EstCap ds) 1) handlers,
         totalCap = 0\<rparr>"
  have "length (caps ?l0) = length (dispatch ?l0)" "caps ?l0 \<noteq> []"
    using False by simp_all
  from updateWeights_result[OF this, of fl] assms False show ?thesis
    by (auto simp: NewLoadBalancer_def Let_def well_formed_def)
qed

text \<open>
  Claim C4: a tick on a well-formed balancer (the ticker exists, so the update interval is
  positive) succeeds, and for every handler \<open>i\<close> the new capacity is the value that the
  specification's update computes from the old capacity and the counter values
  \<open>c = calls[i]\<close> and \<open>r = rejections[i]\<close>: additive increase if \<open>c > 0\<close>, then
  multiplicative decrease if \<open>r > 0\<close>, then smoothing with \<open>c / interval\<close> if
  \<open>c > 0 \<or> r > 0\<close>, then the decay by 0.99 if \<open>c = 0 \<and> r = 0\<close>, then the clamp to at
  least 0.1; and both counters of \<open>i\<close> are 0 afterwards.
\<close>

theorem tick_capacity_update:
  assumes "well_formed l" and "0 < sint (UpdateInterval (config l))"
  shows "\<exists>l'. tick fl l = Inr l' \<and> length (caps l') = length (caps l)
           \<and> (\<forall>i<length (caps l).
                 caps l' ! i = spec_capacity_update (config l) (sint (calls l ! i))
                                 (sint (rejections l ! i)) (caps l ! i)
                 \<and> calls l' ! i = 0 \<and> rejections l' ! i = 0)"
proof -
  from assms(1) have "length (caps l) = length (dispatch l)"
    by (simp add: well_formed_def)
  with tick_result[OF assms, of fl] show ?thesis
    by auto
qed

theorem tick_capacity_update_witness:
  "\<exists>l'. tick (\<lambda>x. x) two_handler_balancer = Inr l'
      \<and> caps l' ! 0 = 2.55 \<and> calls l' ! 0 = 0 \<and> rejections l' ! 0 = 0
      \<and> caps l' ! 1 = 2.97 \<and> calls l' ! 1 = 0 \<and> rejections l' ! 1 = 0"
proof -
  let ?l = "two_handler_balancer"
  have wf: "well_formed ?l"
    by (simp add: well_formed_def two_handler_balancer_def)
  have pos: "0 < sint (UpdateInterval (config ?l))"
    by (simp add: two_handler_balancer_def defaultConfig_def Second_def)
  from tick_capacity_update [OF wf pos, of "\<lambda>x. x"]
  obtain l' where l': "tick (\<lambda>x. x) ?l = Inr l'"
    "\<forall>i<length (caps ?l).
        caps l' ! i = spec_capacity_update (config ?l) (sint (calls ?l ! i))
                        (sint (rejections ?l ! i)) (caps ?l ! i)
        \<and> calls l' ! i = 0 \<and> rejections l' ! i = 0"
    by blast
  have "(0::nat) < length (caps ?l)" "(1::nat) < length (caps ?l)"
    by (simp_all add: two_handler_balancer_def)
  with l'(2) have "caps l' ! 0 = spec_capacity_update (config ?l) (sint (calls ?l ! 0))
                        (sint (rejections ?l ! 0)) (caps ?l ! 0)"
    "calls l' ! 0 = 0" "rejections l' ! 0 = 0"
    "caps l' ! 1 = spec_capacity_update (config ?l) (sint (calls ?l ! 1))
                        (sint (rejections ?l ! 1)) (caps ?l ! 1)"
    "calls l' ! 1 = 0" "rejections l' ! 1 = 0"
    by blast+
  then have "caps l' ! 0 = 2.55" "calls l' ! 0 = 0" "rejections l' ! 0 = 0"
    "caps l' ! 1 = 2.97" "calls l' ! 1 = 0" "rejections l' ! 1 = 0"
    by (simp_all add: two_handler_balancer_def defaultConfig_def Second_def Seconds_def
        spec_capacity_update_def Let_def)
  with l'(1) show ?thesis
    by blast
qed

text \<open>
  Claim C6: whatever the counters, the capacities and the configuration of a well-formed
  balancer are, after \<open>updateLoads\<close>, and after the whole tick when the ticker exists,
  every capacity is at least 0.1; the tick succeeds and leaves the balancer well formed,
  so the bound holds after every later tick too.
\<close>

theorem tick_capacity_floor:
  assumes "well_formed l"
  shows "(\<exists>l1. updateLoads l = Inr l1 \<and> length (caps l1) = length (caps l)
             \<and> (\<forall>i<length (caps l1). 0.1 \<le> caps l1 ! i))
         \<and> (0 < sint (UpdateInterval (config l)) \<longrightarrow>
             (\<exists>l'. tick fl l = Inr l' \<and> well_formed l' \<and> length (caps l') = length (caps l)
                 \<and> (\<forall>i<length (caps l'). 0.1 \<le> caps l' ! i)))"
proof (intro conjI impI)
  from assms have len: "length (caps l) = length (dispatch l)"
    by (simp add: well_formed_def)
  from updateLoads_result[OF assms]
  obtain l1 where l1: "updateLoads l = Inr l1" "length (caps l1) = length (dispatch l)"
    "\<forall>j<length (dispatch l).
        caps l1 ! j = spec_capacity_update (config l) (sint (calls l ! j))
                        (sint (rejections l ! j)) (caps l ! j)
        \<and> calls l1 ! j = 0 \<and> rejections l1 ! j = 0"
    by blast
  have "\<forall>i<length (caps l1). 0.1 \<le> caps l1 ! i"
  proof (intro allI impI)
    fix i assume "i < length (caps l1)"
    with l1(2,3) have "caps l1 ! i = spec_capacity_update (config l) (sint (calls l ! i))
                        (sint (rejections l ! i)) (caps l ! i)"
      by simp
    then show "0.1 \<le> caps l1 ! i"
      by (simp only: spec_capacity_update_floor)
  qed
  with l1(1,2) len
  show "\<exists>l1. updateLoads l = Inr l1 \<and> length (caps l1) = length (caps l)
             \<and> (\<forall>i<length (caps l1). 0.1 \<le> caps l1 ! i)"
    by simp
  assume "0 < sint (UpdateInterval (config l))"
  from tick_result[OF assms this, of fl]
  obtain l' where l': "tick fl l = Inr l'" "well_formed l'" "length (caps l') = length (dispatch l)"
    "\<forall>j<length (dispatch l).
        caps l' ! j = spec_capacity_update (config l) (sint (calls l ! j))
                        (sint (rejections l ! j)) (caps l ! j)
        \<and> calls l' ! j = 0 \<and> rejections l' ! j = 0"
    by blast
  have "\<forall>i<length (caps l'). 0.1 \<le> caps l' ! i"
  proof (intro allI impI)
    fix i assume "i < length (caps l')"
    with l'(3,4) have "caps l' ! i = spec_capacity_update (config l) (sint (calls l ! i))
                        (sint (rejections l ! i)) (caps l ! i)"
      by simp
    then show "0.1 \<le> caps l' ! i"
      by (simp only: spec_capacity_update_floor)
  qed
  with l'(1,2,3) len
  show "\<exists>l'. tick fl l = Inr l' \<and> well_formed l' \<and> length (caps l') = length (caps l)
                 \<and> (\<forall>i<length (caps l'). 0.1 \<le> caps l' ! i)"
    by simp
qed

theorem tick_capacity_floor_witness:
  "\<exists>l'. tick (\<lambda>x. x) two_handler_balancer = Inr l' \<and> well_formed l'
      \<and> length (caps l') = 2 \<and> 0.1 \<le> caps l' ! 0 \<and> 0.1 \<le> caps l' ! 1"
proof -
  let ?l = "two_handler_balancer"
  have wf: "well_formed ?l"
    by (simp add: well_formed_def two_handler_balancer_def)
  have pos: "0 < sint (UpdateInterval (config ?l))"
    by (simp add: two_handler_balancer_def defaultConfig_def Second_def)
  from tick_capacity_floor [OF wf, of "\<lambda>x. x"] pos
  obtain l' where l': "tick (\<lambda>x. x) ?l = Inr l'" "well_formed l'" "length (caps l') = length (caps ?l)"
    "\<forall>i<length (caps l'). 0.1 \<le> caps l' ! i"
    by blast
  from l'(3) have len: "length (caps l') = 2"
    by (simp add: two_handler_balancer_def)
  with l'(4) have "0.1 \<le> caps l' ! 0" "0.1 \<le> caps l' ! 1"
    by simp_all
  with l'(1,2) len show ?thesis
    by blast
qed

end
